theory Spec2Isabelle
  imports Complex_Main "HOL-Library.AList"
begin

section \<open>Python values shared by the whole model\<close>

text \<open>
  The exceptions that the modelled functions can raise.  A function that can raise returns
  \<open>error + 'a\<close>, with \<open>Inl\<close> for the exception.
\<close>

datatype error = ValueError | ZeroDivisionError | IndexError | KeyError

text \<open>A board coordinate \<open>(x, y)\<close>: column first, then row, as everywhere in the source.\<close>

type_synonym cell = "int \<times> int"

section \<open>Process entry (main.py)\<close>

text \<open>
  The \<open>__main__\<close> block of main.py looks at \<open>len(sys.argv)\<close> only.  What it starts is
  recorded as an action; \<open>int(...)\<close> is Python's builtin, taken as a parameter
  (\<open>None\<close> where it raises ValueError).  The default of \<open>play_multiple_games\<close> for
  its third parameter is 1.
\<close>

datatype action =
    call_main_menu
  | call_play_multiple_games int int int
  | call_print string

definition play_multiple_games_default_guess_method :: int where
  "play_multiple_games_default_guess_method = 1"

definition main_block :: "(string \<Rightarrow> int option) \<Rightarrow> string list \<Rightarrow> error + action" where
  "main_block py_int argv =
     (if length argv = 1 then Inr call_main_menu
      else if length argv = 3 then
        (case py_int (argv ! 1) of
           None \<Rightarrow> Inl ValueError
         | Some agent_type \<Rightarrow>
            (case py_int (argv ! 2) of
               None \<Rightarrow> Inl ValueError
             | Some iter \<Rightarrow>
                 Inr (call_play_multiple_games agent_type iter
                        play_multiple_games_default_guess_method)))
      else if length argv = 4 then
        (case py_int (argv ! 1) of
           None \<Rightarrow> Inl ValueError
         | Some agent_type \<Rightarrow>
            (case py_int (argv ! 2) of
               None \<Rightarrow> Inl ValueError
             | Some iter \<Rightarrow>
                (case py_int (argv ! 3) of
                   None \<Rightarrow> Inl ValueError
                 | Some guess_method \<Rightarrow>
                     Inr (call_play_multiple_games agent_type iter guess_method))))
      else Inr (call_print ''InvalidParameterError: Invalid number of parameters''))"

section \<open>Tiles (sprites.py)\<close>

text \<open>
  The sprites of settings.py.  \<open>tile_numbers\<close> is a list of eight images; the constructor
  carries the index into it.
\<close>

datatype sprite =
    tile_numbers nat
  | tile_empty
  | tile_exploded
  | tile_flag
  | tile_mine
  | tile_unknown
  | tile_not_mine

text \<open>
  The tile types of sprites.py are the strings \<open>"."\<close>, \<open>"X"\<close>, \<open>"C"\<close> and \<open>"/"\<close>; they are
  kept as strings.  The fields \<open>x\<close>, \<open>y\<close>, \<open>image\<close> and \<open>type\<close> of the class carry the
  prefix \<open>tile_\<close> here.
\<close>

record Tile =
  tile_x :: int
  tile_y :: int
  tile_image :: sprite
  tile_type :: string
  nearby_mine :: int
  revealed :: bool
  flagged :: bool

text \<open>
  A surface is modelled by the list of \<open>blit\<close> calls made on it, oldest first: each is a
  sprite and the pixel position it is painted at.
\<close>

type_synonym surface = "(sprite \<times> int \<times> int) list"

definition blit :: "sprite \<Rightarrow> int \<times> int \<Rightarrow> surface \<Rightarrow> surface" where
  "blit img pos board_surface = board_surface @ [(img, pos)]"

definition Tile_draw :: "Tile \<Rightarrow> surface \<Rightarrow> surface" where
  "Tile_draw t board_surface =
     (if \<not> flagged t \<and> revealed t then blit (tile_image t) (tile_x t, tile_y t) board_surface
      else if flagged t \<and> \<not> revealed t then blit tile_flag (tile_x t, tile_y t) board_surface
      else if \<not> revealed t then blit tile_unknown (tile_x t, tile_y t) board_surface
      else board_surface)"

section \<open>Python sets and dictionaries\<close>

text \<open>
  A Python \<open>set\<close> is modelled by the duplicate-free list of its elements, in the order in
  which a \<open>for\<close> loop visits them.  CPython does not specify that order, and the model's
  operations keep the order of their first argument where CPython may choose another one;
  every result below is therefore either stated through \<open>set\<close> or proved for whichever
  element comes first.  A \<open>dict\<close> is an association list in insertion order
  (\<open>AList.update\<close> overwrites a key in place and appends a new one, as Python does).
\<close>

definition pyset_add :: "'a \<Rightarrow> 'a list \<Rightarrow> 'a list" where
  "pyset_add x xs = (if x \<in> set xs then xs else xs @ [x])"

definition pyset_remove :: "'a \<Rightarrow> 'a list \<Rightarrow> 'a list" where
  "pyset_remove x xs = removeAll x xs"

definition pyset_difference :: "'a list \<Rightarrow> 'a list \<Rightarrow> 'a list" where
  "pyset_difference xs ys = filter (\<lambda>x. x \<notin> set ys) xs"

definition pyset_intersection :: "'a list \<Rightarrow> 'a list \<Rightarrow> 'a list" where
  "pyset_intersection xs ys = filter (\<lambda>x. x \<in> set ys) xs"

definition pyset_union :: "'a list \<Rightarrow> 'a list \<Rightarrow> 'a list" where
  "pyset_union xs ys = remdups (xs @ ys)"

definition pyset_issubset :: "'a list \<Rightarrow> 'a list \<Rightarrow> bool" where
  "pyset_issubset xs ys = (set xs \<subseteq> set ys)"

text \<open>\<open>del xs[i]\<close>, for an index in range.\<close>

definition list_del :: "nat \<Rightarrow> 'a list \<Rightarrow> 'a list" where
  "list_del i xs = take i xs @ drop (Suc i) xs"

text \<open>\<open>min(xs, key=f)\<close>: the first element with the least key; ValueError on no element.\<close>

definition py_min :: "('a \<Rightarrow> 'k::linorder) \<Rightarrow> 'a list \<Rightarrow> error + 'a" where
  "py_min f xs =
     (case xs of
        [] \<Rightarrow> Inl ValueError
      | x # rest \<Rightarrow> Inr (fold (\<lambda>y m. if f y < f m then y else m) rest x))"

text \<open>
  \<open>itertools.combinations(xs, r)\<close>: the sub-sequences of length \<open>r\<close>, in lexicographic
  order of the positions chosen.
\<close>

fun combinations :: "'a list \<Rightarrow> nat \<Rightarrow> 'a list list" where
  "combinations xs 0 = [[]]"
| "combinations [] (Suc r) = []"
| "combinations (x # xs) (Suc r) = map ((#) x) (combinations xs r) @ combinations xs (Suc r)"

section \<open>Sentences (minesweeperAI.py)\<close>

record Sentence =
  cells :: "cell list"
  count :: int

text \<open>\<open>Sentence.__init__\<close> copies its first argument into a fresh set.\<close>

definition Sentence_init :: "cell list \<Rightarrow> int \<Rightarrow> Sentence" where
  "Sentence_init cs n = \<lparr>cells = remdups cs, count = n\<rparr>"

definition Sentence_eq :: "Sentence \<Rightarrow> Sentence \<Rightarrow> bool" where
  "Sentence_eq a b = (set (cells a) = set (cells b) \<and> count a = count b)"

definition known_mines :: "Sentence \<Rightarrow> cell list" where
  "known_mines sn = (if int (length (cells sn)) = count sn then cells sn else [])"

definition known_safes :: "Sentence \<Rightarrow> cell list" where
  "known_safes sn = (if count sn = 0 then cells sn else [])"

definition Sentence_mark_mine :: "cell \<Rightarrow> Sentence \<Rightarrow> Sentence" where
  "Sentence_mark_mine c sn =
     (if c \<in> set (cells sn)
      then sn\<lparr>cells := pyset_remove c (cells sn), count := count sn - 1\<rparr>
      else sn)"

definition Sentence_mark_safe :: "cell \<Rightarrow> Sentence \<Rightarrow> Sentence" where
  "Sentence_mark_safe c sn =
     (if c \<in> set (cells sn) then sn\<lparr>cells := pyset_remove c (cells sn)\<rparr> else sn)"

section \<open>The solver core (class Solver)\<close>

text \<open>
  The three concrete classes share the fields of \<open>Solver\<close>; \<open>solver_class\<close> is the class of
  the object, on which \<open>add_knowledge\<close> and \<open>analyze_knowledge\<close> dispatch.  \<open>guess_method\<close>
  exists on a \<open>SetBasedSolver\<close> only and is not read for the other two classes.
\<close>

datatype solver_class = GenerateConfigurationSolver | ProbabilityTheorySolver | SetBasedSolver

record Solver =
  solver_class :: solver_class
  width :: int
  height :: int
  amount_mines :: int
  moves_made :: "cell list"
  mines :: "cell list"
  safes :: "cell list"
  knowledge :: "Sentence list"
  next_uncertain_move :: "cell option"
  print_progress :: bool
  guess :: int
  guess_method :: int

definition Solver_init :: "solver_class \<Rightarrow> int \<Rightarrow> int \<Rightarrow> int \<Rightarrow> int \<Rightarrow> Solver" where
  "Solver_init cls w h n gm =
     \<lparr>solver_class = cls, width = w, height = h, amount_mines = n, moves_made = [],
      mines = [], safes = [], knowledge = [], next_uncertain_move = None,
      print_progress = False, guess = - 1, guess_method = gm\<rparr>"

definition mark_mine :: "cell \<Rightarrow> Solver \<Rightarrow> Solver" where
  "mark_mine c s =
     s\<lparr>mines := pyset_add c (mines s), knowledge := map (Sentence_mark_mine c) (knowledge s)\<rparr>"

definition mark_safe :: "cell \<Rightarrow> Solver \<Rightarrow> Solver" where
  "mark_safe c s =
     s\<lparr>safes := pyset_add c (safes s), knowledge := map (Sentence_mark_safe c) (knowledge s)\<rparr>"

text \<open>
  \<open>add_sentence\<close>: the two nested \<open>range\<close> loops visit the 3x3 block around the cell, column by
  column; the loop state is the set of cells collected and the count still to explain.
\<close>

definition block3 :: "cell \<Rightarrow> cell list" where
  "block3 c = concat (map (\<lambda>x. map (\<lambda>y. (x, y)) [snd c - 1 ..snd c + 1]) [fst c - 1 ..fst c + 1])"

definition add_sentence_step :: "Solver \<Rightarrow> cell \<Rightarrow> cell \<Rightarrow> cell list \<times> int \<Rightarrow> cell list \<times> int" where
  "add_sentence_step s c p acc =
     (if p = c then acc
      else if 0 \<le> fst p \<and> fst p < width s \<and> 0 \<le> snd p \<and> snd p < height s then
        (if p \<in> set (mines s) then (fst acc, snd acc - 1)
         else if p \<notin> set (safes s) then (pyset_add p (fst acc), snd acc)
         else acc)
      else acc)"

definition add_sentence :: "cell \<Rightarrow> int \<Rightarrow> Solver \<Rightarrow> Solver" where
  "add_sentence c n s =
     (let acc = fold (add_sentence_step s c) (block3 c) ([], n)
      in s\<lparr>knowledge := knowledge s @ [Sentence_init (fst acc) (snd acc)]\<rparr>)"

text \<open>
  \<open>remove_null_sentence\<close> walks the indices from the last one down to 0 and deletes in
  place; \<open>remove_null_from i\<close> is the loop with the indices below \<open>i\<close> still to visit.
\<close>

fun remove_null_from :: "nat \<Rightarrow> Sentence list \<Rightarrow> Sentence list" where
  "remove_null_from 0 ks = ks"
| "remove_null_from (Suc i) ks =
     remove_null_from i (if length (cells (ks ! i)) = 0 then list_del i ks else ks)"

definition remove_null_sentence :: "Solver \<Rightarrow> Solver" where
  "remove_null_sentence s =
     s\<lparr>knowledge := remove_null_from (length (knowledge s)) (knowledge s)\<rparr>"

text \<open>
  The index pairs \<open>i < j\<close> of the loops \<open>for i in range(n - 1): for j in range(i + 1, n)\<close>.
\<close>

definition index_pairs :: "nat \<Rightarrow> (nat \<times> nat) list" where
  "index_pairs n = concat (map (\<lambda>i. map (\<lambda>j. (i, j)) [Suc i ..< n]) [0 ..< n - 1])"

definition remove_duplicated_sentence :: "Solver \<Rightarrow> Solver" where
  "remove_duplicated_sentence s =
     (let ks = knowledge s;
          duplicated_sentence_pos =
            fold (\<lambda>(i, j) pos. if Sentence_eq (ks ! i) (ks ! j) then pyset_add j pos else pos)
              (index_pairs (length ks)) []
      in s\<lparr>knowledge := fold list_del (rev (sort duplicated_sentence_pos)) ks\<rparr>)"

text \<open>
  \<open>check_sentence\<close>: one pass of the \<open>while\<close> loop collects the cells that single
  sentences settle, marks the safe ones and then the mines; the loop ends with the first
  pass that marks nothing.
\<close>

definition collect_known :: "(Sentence \<Rightarrow> cell list) \<Rightarrow> Sentence list \<Rightarrow> cell list" where
  "collect_known known ks = fold (\<lambda>sn acc. pyset_union acc (known sn)) ks []"

definition cells_total :: "Solver \<Rightarrow> nat" where
  "cells_total s = sum_list (map (\<lambda>sn. length (cells sn)) (knowledge s))"

function check_sentence :: "Solver \<Rightarrow> Solver" where
  "check_sentence s =
     (let safe_cell = collect_known known_safes (knowledge s);
          mine_cell = collect_known known_mines (knowledge s)
      in if safe_cell = [] \<and> mine_cell = [] then s
         else check_sentence (fold mark_mine mine_cell (fold mark_safe safe_cell s)))"
  by pat_completeness auto

text \<open>
  Termination of the \<open>while\<close> loop: a pass that marks a cell removes it from at least one
  sentence, and no marking adds a cell to a sentence, so the total number of cells in the
  knowledge base decreases with every pass but the last.
\<close>

lemma sum_cells_mark_le:
  assumes "\<And>sn. length (cells (f sn)) \<le> length (cells sn)"
  shows "sum_list (map (\<lambda>sn. length (cells (f sn))) ks) \<le> sum_list (map (\<lambda>sn. length (cells sn)) ks)"
  using assms by (induction ks) (auto simp: add_mono)

lemma sum_cells_mark_less:
  assumes "\<And>sn. length (cells (f sn)) \<le> length (cells sn)"
    and "sn0 \<in> set ks" and "length (cells (f sn0)) < length (cells sn0)"
  shows "sum_list (map (\<lambda>sn. length (cells (f sn))) ks) < sum_list (map (\<lambda>sn. length (cells sn)) ks)"
  using assms(2,3)
proof (induction ks)
  case Nil then show ?case by simp
next
  case (Cons k ks)
  have le: "sum_list (map (\<lambda>sn. length (cells (f sn))) ks) \<le> sum_list (map (\<lambda>sn. length (cells sn)) ks)"
    by (rule sum_cells_mark_le [OF assms(1)])
  show ?case
  proof (cases "sn0 = k")
    case True
    with Cons.prems le show ?thesis by simp
  next
    case False
    with Cons have "sum_list (map (\<lambda>sn. length (cells (f sn))) ks) < sum_list (map (\<lambda>sn. length (cells sn)) ks)"
      by simp
    with assms(1) [of k] show ?thesis by simp
  qed
qed

lemma Sentence_mark_safe_le: "length (cells (Sentence_mark_safe c sn)) \<le> length (cells sn)"
  by (simp add: Sentence_mark_safe_def pyset_remove_def length_removeAll_less_eq)

lemma Sentence_mark_mine_le: "length (cells (Sentence_mark_mine c sn)) \<le> length (cells sn)"
  by (simp add: Sentence_mark_mine_def pyset_remove_def length_removeAll_less_eq)

lemma cells_total_mark_safe_le: "cells_total (mark_safe c s) \<le> cells_total s"
  by (simp add: cells_total_def mark_safe_def comp_def sum_cells_mark_le Sentence_mark_safe_le)

lemma cells_total_mark_mine_le: "cells_total (mark_mine c s) \<le> cells_total s"
  by (simp add: cells_total_def mark_mine_def comp_def sum_cells_mark_le Sentence_mark_mine_le)

lemma cells_total_mark_safe_less:
  assumes "sn \<in> set (knowledge s)" and "c \<in> set (cells sn)"
  shows "cells_total (mark_safe c s) < cells_total s"
proof -
  have "length (cells (Sentence_mark_safe c sn)) < length (cells sn)"
    using assms(2) by (simp add: Sentence_mark_safe_def pyset_remove_def length_removeAll_less)
  with assms(1) show ?thesis
    by (simp add: cells_total_def mark_safe_def comp_def sum_cells_mark_less [OF Sentence_mark_safe_le])
qed

lemma cells_total_mark_mine_less:
  assumes "sn \<in> set (knowledge s)" and "c \<in> set (cells sn)"
  shows "cells_total (mark_mine c s) < cells_total s"
proof -
  have "length (cells (Sentence_mark_mine c sn)) < length (cells sn)"
    using assms(2) by (simp add: Sentence_mark_mine_def pyset_remove_def length_removeAll_less)
  with assms(1) show ?thesis
    by (simp add: cells_total_def mark_mine_def comp_def sum_cells_mark_less [OF Sentence_mark_mine_le])
qed

lemma cells_total_fold_mark_safe_le: "cells_total (fold mark_safe cs s) \<le> cells_total s"
proof (induction cs arbitrary: s)
  case Nil show ?case by simp
next
  case (Cons c cs)
  have "cells_total (fold mark_safe cs (mark_safe c s)) \<le> cells_total (mark_safe c s)"
    by (rule Cons.IH)
  also have "\<dots> \<le> cells_total s" by (rule cells_total_mark_safe_le)
  finally show ?case by simp
qed

lemma cells_total_fold_mark_mine_le: "cells_total (fold mark_mine cs s) \<le> cells_total s"
proof (induction cs arbitrary: s)
  case Nil show ?case by simp
next
  case (Cons c cs)
  have "cells_total (fold mark_mine cs (mark_mine c s)) \<le> cells_total (mark_mine c s)"
    by (rule Cons.IH)
  also have "\<dots> \<le> cells_total s" by (rule cells_total_mark_mine_le)
  finally show ?case by simp
qed

lemma collect_known_fold_subset:
  "set (fold (\<lambda>sn acc. pyset_union acc (known sn)) ks acc0) = set acc0 \<union> (\<Union>sn\<in>set ks. set (known sn))"
  by (induction ks arbitrary: acc0) (auto simp: pyset_union_def)

lemma set_collect_known: "set (collect_known known ks) = (\<Union>sn\<in>set ks. set (known sn))"
  by (simp add: collect_known_def collect_known_fold_subset)

lemma known_safes_subset: "set (known_safes sn) \<subseteq> set (cells sn)"
  by (auto simp: known_safes_def)

lemma known_mines_subset: "set (known_mines sn) \<subseteq> set (cells sn)"
  by (auto simp: known_mines_def)

lemma cells_total_fold_mark_safe_less:
  assumes "cs \<noteq> []" and "set cs \<subseteq> (\<Union>sn\<in>set (knowledge s). set (cells sn))"
  shows "cells_total (fold mark_safe cs s) < cells_total s"
proof -
  from assms(1) obtain c rest where cs: "cs = c # rest" by (cases cs) auto
  with assms(2) obtain sn where "sn \<in> set (knowledge s)" "c \<in> set (cells sn)" by auto
  then have "cells_total (mark_safe c s) < cells_total s" by (rule cells_total_mark_safe_less)
  moreover have "cells_total (fold mark_safe rest (mark_safe c s)) \<le> cells_total (mark_safe c s)"
    by (rule cells_total_fold_mark_safe_le)
  ultimately show ?thesis by (simp add: cs)
qed

lemma cells_total_fold_mark_mine_less:
  assumes "cs \<noteq> []" and "set cs \<subseteq> (\<Union>sn\<in>set (knowledge s). set (cells sn))"
  shows "cells_total (fold mark_mine cs s) < cells_total s"
proof -
  from assms(1) obtain c rest where cs: "cs = c # rest" by (cases cs) auto
  with assms(2) obtain sn where "sn \<in> set (knowledge s)" "c \<in> set (cells sn)" by auto
  then have "cells_total (mark_mine c s) < cells_total s" by (rule cells_total_mark_mine_less)
  moreover have "cells_total (fold mark_mine rest (mark_mine c s)) \<le> cells_total (mark_mine c s)"
    by (rule cells_total_fold_mark_mine_le)
  ultimately show ?thesis by (simp add: cs)
qed

lemma check_sentence_pass_decreases:
  assumes "collect_known known_safes (knowledge s) \<noteq> [] \<or> collect_known known_mines (knowledge s) \<noteq> []"
  shows "cells_total (fold mark_mine (collect_known known_mines (knowledge s))
            (fold mark_safe (collect_known known_safes (knowledge s)) s)) < cells_total s"
proof (cases "collect_known known_safes (knowledge s) = []")
  case True
  with assms have ne: "collect_known known_mines (knowledge s) \<noteq> []" by simp
  have "set (collect_known known_mines (knowledge s)) \<subseteq> (\<Union>sn\<in>set (knowledge s). set (cells sn))"
    using known_mines_subset by (fastforce simp: set_collect_known)
  from cells_total_fold_mark_mine_less [OF ne this] True show ?thesis by simp
next
  case False
  have "set (collect_known known_safes (knowledge s)) \<subseteq> (\<Union>sn\<in>set (knowledge s). set (cells sn))"
    using known_safes_subset by (fastforce simp: set_collect_known)
  from cells_total_fold_mark_safe_less [OF False this]
  have "cells_total (fold mark_safe (collect_known known_safes (knowledge s)) s) < cells_total s" .
  moreover have "cells_total (fold mark_mine (collect_known known_mines (knowledge s))
            (fold mark_safe (collect_known known_safes (knowledge s)) s))
       \<le> cells_total (fold mark_safe (collect_known known_safes (knowledge s)) s)"
    by (rule cells_total_fold_mark_mine_le)
  ultimately show ?thesis by simp
qed

termination check_sentence
proof (relation "measure cells_total")
  show "wf (measure cells_total)" by simp
next
  fix s :: Solver and x xa
  assume "x = collect_known known_safes (knowledge s)"
     and "xa = collect_known known_mines (knowledge s)"
     and "\<not> (x = [] \<and> xa = [])"
  then show "(fold mark_mine xa (fold mark_safe x s), s) \<in> measure cells_total"
    using check_sentence_pass_decreases [of s] by auto
qed

section \<open>Choosing a move\<close>

definition make_safe_move :: "Solver \<Rightarrow> cell option" where
  "make_safe_move s =
     (case pyset_difference (safes s) (moves_made s) of
        [] \<Rightarrow> None
      | c # allowed \<Rightarrow> Some c)"

text \<open>The cells in the order of \<open>for y in range(height): for x in range(width)\<close>.\<close>

definition board_scan :: "Solver \<Rightarrow> cell list" where
  "board_scan s = concat (map (\<lambda>y. map (\<lambda>x. (x, y)) [0 ..width s - 1]) [0 ..height s - 1])"

text \<open>
  \<open>choose_uncertain_move\<close>.  The two risks are Python floats obtained by one division of
  integers each (or, for the probability-theory strategy, by a longer computation); they
  are modelled by exact rationals, so the rounding of binary64 is not part of the model.
  Of \<open>prob_dict\<close> only the keys are read.  The division raises ZeroDivisionError when no
  tile is left unacted.
\<close>

definition choose_uncertain_move ::
  "cell \<Rightarrow> rat \<Rightarrow> (cell \<times> 'v) list \<Rightarrow> Solver \<Rightarrow> error + Solver" where
  "choose_uncertain_move best_informed_move best_informed_move_risk prob_dict s =
     (let unknown_tile = height s * width s - int (length (moves_made s));
          unknown_mine = amount_mines s - int (length (mines s))
      in if unknown_tile = 0 then Inl ZeroDivisionError
         else
           (let estimated_average_risk = rat_of_int unknown_mine / rat_of_int unknown_tile
            in if best_informed_move_risk \<le> estimated_average_risk
                  \<or> unknown_tile = int (length prob_dict)
               then Inr (s\<lparr>next_uncertain_move := Some best_informed_move\<rparr>)
               else
                 (case find (\<lambda>p. p \<notin> set (moves_made s) \<and> p \<notin> set (map fst prob_dict))
                         (board_scan s) of
                    None \<Rightarrow> Inr s
                  | Some p \<Rightarrow> Inr (s\<lparr>next_uncertain_move := Some p\<rparr>))))"

definition make_uncertain_move :: "Solver \<Rightarrow> cell option" where
  "make_uncertain_move s =
     (if length (knowledge s) = 0 then
        (case find (\<lambda>p. p \<notin> set (moves_made s) \<and> p \<notin> set (mines s)) (board_scan s) of
           Some p \<Rightarrow> Some p
         | None \<Rightarrow> next_uncertain_move s)
      else next_uncertain_move s)"

section \<open>Loops that can raise\<close>

fun foldE :: "('a \<Rightarrow> 's \<Rightarrow> error + 's) \<Rightarrow> 'a list \<Rightarrow> 's \<Rightarrow> error + 's" where
  "foldE f [] st = Inr st"
| "foldE f (x # xs) st = (case f x st of Inl e \<Rightarrow> Inl e | Inr st' \<Rightarrow> foldE f xs st')"

fun repeatE :: "nat \<Rightarrow> ('s \<Rightarrow> error + 's) \<Rightarrow> 's \<Rightarrow> error + 's" where
  "repeatE 0 f st = Inr st"
| "repeatE (Suc n) f st = (case f st of Inl e \<Rightarrow> Inl e | Inr st' \<Rightarrow> repeatE n f st')"

text \<open>\<open>d[k] = f(d[k])\<close>: KeyError when the key is absent.\<close>

definition dict_modify :: "'k \<Rightarrow> ('v \<Rightarrow> 'v) \<Rightarrow> ('k \<times> 'v) list \<Rightarrow> error + ('k \<times> 'v) list" where
  "dict_modify k f d =
     (case map_of d k of None \<Rightarrow> Inl KeyError | Some v \<Rightarrow> Inr (AList.update k (f v) d))"

section \<open>GenerateConfigurationSolver.analyze_knowledge\<close>

definition histogram_init :: "Sentence list \<Rightarrow> (cell \<times> int) list" where
  "histogram_init ks = fold (\<lambda>sn h. fold (\<lambda>c h. AList.update c 0 h) (cells sn) h) ks []"

text \<open>
  One round of the breadth-first enumeration: every configuration that satisfies the
  sentences before \<open>sn\<close> is extended in all ways that satisfy \<open>sn\<close> too, by cells that no
  earlier sentence mentions.  The loop state is the list \<open>possible_configuration\<close> and the
  set \<open>invalid_cell\<close>.
\<close>

definition extend_configuration :: "Sentence \<Rightarrow> cell list \<Rightarrow> cell list \<Rightarrow> cell list list" where
  "extend_configuration sn invalid_cell configuration =
     (let valid_cell = pyset_difference (cells sn) invalid_cell;
          missing_cell_num = count sn - int (length (pyset_intersection (cells sn) configuration))
      in if missing_cell_num < 0 then []
         else map (\<lambda>choice. pyset_union configuration choice)
                (combinations valid_cell (nat missing_cell_num)))"

definition configuration_step ::
  "Sentence \<Rightarrow> cell list list \<times> cell list \<Rightarrow> cell list list \<times> cell list" where
  "configuration_step sn st =
     (concat (map (extend_configuration sn (snd st)) (fst st)),
      pyset_union (snd st) (cells sn))"

definition generate_configurations :: "Sentence list \<Rightarrow> cell list list" where
  "generate_configurations ks = fst (fold configuration_step ks ([[]], []))"

definition histogram_count ::
  "cell list list \<Rightarrow> (cell \<times> int) list \<Rightarrow> error + (cell \<times> int) list" where
  "histogram_count possible_configuration h =
     foldE (\<lambda>configuration. foldE (\<lambda>c. dict_modify c (\<lambda>v. v + 1)) configuration)
       possible_configuration h"

text \<open>
  The loop that marks the certain cells; its state is the solver and the flag
  \<open>certain_move_found\<close>.  A dictionary has each key once, so the value read by
  \<open>cell_histogram[cell]\<close> is the one of the entry visited.
\<close>

definition GC_mark_step :: "nat \<Rightarrow> cell \<times> int \<Rightarrow> Solver \<times> bool \<Rightarrow> Solver \<times> bool" where
  "GC_mark_step n_configurations e st =
     (if snd e = 0 then (mark_safe (fst e) (fst st), True)
      else if snd e = int n_configurations then (mark_mine (fst e) (fst st), snd st)
      else st)"

definition GC_mark :: "nat \<Rightarrow> (cell \<times> int) list \<Rightarrow> Solver \<Rightarrow> Solver \<times> bool" where
  "GC_mark n_configurations cell_histogram s =
     fold (GC_mark_step n_configurations) cell_histogram (s, False)"

definition GC_analyze_knowledge :: "Solver \<Rightarrow> error + Solver" where
  "GC_analyze_knowledge s =
     (if length (knowledge s) = 0 then Inr s
      else
        (let possible_configuration = generate_configurations (knowledge s)
         in case histogram_count possible_configuration (histogram_init (knowledge s)) of
              Inl e \<Rightarrow> Inl e
            | Inr cell_histogram \<Rightarrow>
               (let marked = GC_mark (length possible_configuration) cell_histogram s
                in if snd marked then Inr (fst marked)
                   else
                     (case py_min snd cell_histogram of
                        Inl e \<Rightarrow> Inl e
                      | Inr best \<Rightarrow>
                         (if length possible_configuration = 0 then Inl ZeroDivisionError
                          else choose_uncertain_move (fst best)
                                 (rat_of_int (snd best)
                                    / rat_of_int (int (length possible_configuration)))
                                 cell_histogram (fst marked))))))"

section \<open>ProbabilityTheorySolver.analyze_knowledge\<close>

text \<open>
  The class \<open>Probability\<close> holds one number.  It defines no \<open>__eq__\<close>, so \<open>==\<close> between an
  instance and an \<open>int\<close> is Python's default: the identity of the two objects, which is
  false for an instance of \<open>Probability\<close> and an integer whatever \<open>prob\<close> holds.  The
  floats are modelled by exact rationals.
\<close>

record Probability =
  prob :: rat

definition Probability_init :: Probability where
  "Probability_init = \<lparr>prob = 1\<rparr>"

definition Probability_eq_int :: "Probability \<Rightarrow> int \<Rightarrow> bool" where
  "Probability_eq_int p n = False"

text \<open>
  \<open>prob_dict\<close> maps each cell to its \<open>Probability\<close> object; \<open>constraint_list\<close> holds the same
  objects, sentence by sentence.  The model keeps the objects in the dictionary and lets
  \<open>constraint_list\<close> hold the cells that name them, so an update through either is seen by
  both.
\<close>

definition prob_dict_init :: "Sentence list \<Rightarrow> (cell \<times> Probability) list" where
  "prob_dict_init ks =
     fold (\<lambda>sn d. fold (\<lambda>c d. AList.update c
                                 (case map_of d c of None \<Rightarrow> Probability_init | Some p \<Rightarrow> p) d)
                     (cells sn) d) ks []"

definition scale_prob :: "rat \<Rightarrow> Probability \<Rightarrow> Probability" where
  "scale_prob r p = p\<lparr>prob := prob p * r\<rparr>"

definition PT_estimate_sentence ::
  "Sentence \<Rightarrow> (cell \<times> Probability) list \<Rightarrow> error + (cell \<times> Probability) list" where
  "PT_estimate_sentence sn d =
     (let r = 1 - rat_of_int (count sn) / rat_of_int (int (length (cells sn)))
      in foldE (\<lambda>c. dict_modify c (scale_prob r)) (cells sn) d)"

definition PT_complement :: "(cell \<times> Probability) list \<Rightarrow> (cell \<times> Probability) list" where
  "PT_complement d = map (\<lambda>e. (fst e, (snd e)\<lparr>prob := 1 - prob (snd e)\<rparr>)) d"

definition PT_mark_step :: "cell \<times> Probability \<Rightarrow> Solver \<times> bool \<Rightarrow> Solver \<times> bool" where
  "PT_mark_step e st =
     (if Probability_eq_int (snd e) 0 then (mark_safe (fst e) (fst st), True)
      else if Probability_eq_int (snd e) 1 then (mark_mine (fst e) (fst st), snd st)
      else st)"

definition PT_mark :: "(cell \<times> Probability) list \<Rightarrow> Solver \<Rightarrow> Solver \<times> bool" where
  "PT_mark prob_dict s = fold PT_mark_step prob_dict (s, False)"

definition prob_of :: "(cell \<times> Probability) list \<Rightarrow> cell \<Rightarrow> rat" where
  "prob_of d c = (case map_of d c of None \<Rightarrow> 0 | Some p \<Rightarrow> prob p)"

definition PT_normalise_sentence ::
  "Sentence \<Rightarrow> cell list \<Rightarrow> (cell \<times> Probability) list \<Rightarrow> error + (cell \<times> Probability) list" where
  "PT_normalise_sentence sn constraint d =
     (if count sn = 0 then foldE (\<lambda>c. dict_modify c (scale_prob 1)) constraint d
      else if sum_list (map (prob_of d) constraint) = 0 then Inl ZeroDivisionError
      else foldE (\<lambda>c. dict_modify c
                         (scale_prob (rat_of_int (count sn) / sum_list (map (prob_of d) constraint))))
             constraint d)"

definition PT_normalise_round ::
  "Sentence list \<Rightarrow> cell list list \<Rightarrow> (cell \<times> Probability) list
     \<Rightarrow> error + (cell \<times> Probability) list" where
  "PT_normalise_round ks constraint_list d =
     foldE (\<lambda>i. PT_normalise_sentence (ks ! i) (constraint_list ! i)) [0 ..< length ks] d"

text \<open>
  The first two loops over \<open>prob_dict\<close>: every cell's accumulator is multiplied by
  \<open>r = 1 - count / len(cells)\<close> for each sentence that holds the cell, and then replaced by
  its complement to 1.  \<open>r\<close> is read only inside the loop over the sentence's cells, so a
  sentence without cells needs none.
\<close>

definition PT_estimate :: "Sentence list \<Rightarrow> error + (cell \<times> Probability) list" where
  "PT_estimate ks =
     (case foldE PT_estimate_sentence ks (prob_dict_init ks) of
        Inl e \<Rightarrow> Inl e
      | Inr estimated \<Rightarrow> Inr (PT_complement estimated))"

definition PT_analyze_knowledge :: "Solver \<Rightarrow> error + Solver" where
  "PT_analyze_knowledge s =
     (if length (knowledge s) = 0 then Inr s
      else
        (let constraint_list = map cells (knowledge s)
         in case PT_estimate (knowledge s) of
              Inl e \<Rightarrow> Inl e
            | Inr prob_dict \<Rightarrow>
               (let marked = PT_mark prob_dict s
                in if snd marked then Inr (fst marked)
                   else
                     (case repeatE 30 (PT_normalise_round (knowledge (fst marked)) constraint_list)
                             prob_dict of
                        Inl e \<Rightarrow> Inl e
                      | Inr normalised \<Rightarrow>
                         (case py_min (\<lambda>e. prob (snd e)) normalised of
                            Inl e \<Rightarrow> Inl e
                          | Inr best \<Rightarrow>
                              choose_uncertain_move (fst best) (prob (snd best)) normalised
                                (fst marked))))))"

section \<open>SetBasedSolver\<close>

text \<open>
  \<open>add_complement_sentence\<close>.  The body of the two loops reads \<open>s1 = knowledge[i]\<close> and
  \<open>s2 = knowledge[j]\<close> and updates the two objects in place; the second test reads \<open>s1\<close>
  after the first update.
\<close>

definition complement_pair :: "nat \<times> nat \<Rightarrow> Sentence list \<Rightarrow> Sentence list" where
  "complement_pair ij ks =
     (let i = fst ij; j = snd ij;
          ks1 = (if count (ks ! i) \<ge> count (ks ! j) \<and> pyset_issubset (cells (ks ! j)) (cells (ks ! i))
                 then ks[i := (ks ! i)\<lparr>cells := pyset_difference (cells (ks ! i)) (cells (ks ! j)),
                                         count := count (ks ! i) - count (ks ! j)\<rparr>]
                 else ks)
      in if count (ks1 ! i) \<le> count (ks1 ! j) \<and> pyset_issubset (cells (ks1 ! i)) (cells (ks1 ! j))
         then ks1[j := (ks1 ! j)\<lparr>cells := pyset_difference (cells (ks1 ! j)) (cells (ks1 ! i)),
                                   count := count (ks1 ! j) - count (ks1 ! i)\<rparr>]
         else ks1)"

definition add_complement_sentence :: "Solver \<Rightarrow> Solver" where
  "add_complement_sentence s =
     s\<lparr>knowledge := fold complement_pair (index_pairs (length (knowledge s))) (knowledge s)\<rparr>"

text \<open>
  \<open>add_intersection_sentence\<close>.  \<open>s1\<close> and \<open>s2\<close> are the objects at two positions of the
  list, the one with the larger count first; \<open>mark_mine\<close> and \<open>mark_safe\<close> update every
  sentence of the list in place, \<open>s1\<close> and \<open>s2\<close> among them, so the model reads both
  again from the list after each marking.  The loop state is the solver and \<open>remove_set\<close>.
  The outer \<open>range\<close> is fixed before the loops start; the inner one is computed when the
  inner loop starts, from the list as it is then.
\<close>

definition intersection_pair :: "nat \<Rightarrow> nat \<Rightarrow> Solver \<times> nat list \<Rightarrow> Solver \<times> nat list" where
  "intersection_pair i j st =
     (let s = fst st;
          a = (if count (knowledge s ! i) \<ge> count (knowledge s ! j) then i else j);
          b = (if count (knowledge s ! i) \<ge> count (knowledge s ! j) then j else i);
          sub12 = pyset_difference (cells (knowledge s ! a)) (cells (knowledge s ! b))
      in if count (knowledge s ! a) - count (knowledge s ! b) = int (length sub12) then
           (let s' = fold mark_mine sub12 s;
                sub21 = pyset_difference (cells (knowledge s' ! b)) (cells (knowledge s' ! a));
                s'' = fold mark_safe sub21 s'
            in (s''\<lparr>knowledge := knowledge s'' @
                        [Sentence_init
                           (pyset_intersection (cells (knowledge s'' ! a)) (cells (knowledge s'' ! b)))
                           (count (knowledge s'' ! b))]\<rparr>,
                pyset_add j (pyset_add i (snd st))))
         else st)"

definition intersection_row :: "nat \<Rightarrow> Solver \<times> nat list \<Rightarrow> Solver \<times> nat list" where
  "intersection_row i st =
     fold (intersection_pair i) [Suc i ..< length (knowledge (fst st))] st"

definition add_intersection_sentence :: "Solver \<Rightarrow> Solver" where
  "add_intersection_sentence s =
     (let st = fold intersection_row [0 ..< length (knowledge s) - 1] (s, [])
      in (fst st)\<lparr>knowledge := fold list_del (rev (sort (snd st))) (knowledge (fst st))\<rparr>)"

text \<open>
  \<open>add_knowledge\<close> of the two probability solvers and of the set-based solver.
  \<open>print_sentence\<close> only writes to the terminal and is left out.
\<close>

definition ProbabilitySolver_add_knowledge :: "cell \<Rightarrow> int \<Rightarrow> Solver \<Rightarrow> Solver" where
  "ProbabilitySolver_add_knowledge c n s =
     (let s1 = mark_safe c (s\<lparr>moves_made := pyset_add c (moves_made s)\<rparr>)
      in if n = 0 then s1
         else remove_duplicated_sentence
                (remove_null_sentence (check_sentence (add_sentence c n s1))))"

definition SetBasedSolver_add_knowledge :: "cell \<Rightarrow> int \<Rightarrow> Solver \<Rightarrow> Solver" where
  "SetBasedSolver_add_knowledge c n s =
     (let s1 = mark_safe c (s\<lparr>moves_made := pyset_add c (moves_made s)\<rparr>)
      in if n = 0 then s1
         else add_intersection_sentence
                (remove_null_sentence
                   (check_sentence
                      (add_complement_sentence (remove_null_sentence (add_sentence c n s1))))))"

definition add_knowledge :: "cell \<Rightarrow> int \<Rightarrow> Solver \<Rightarrow> Solver" where
  "add_knowledge c n s =
     (case solver_class s of
        GenerateConfigurationSolver \<Rightarrow> ProbabilitySolver_add_knowledge c n s
      | ProbabilityTheorySolver \<Rightarrow> ProbabilitySolver_add_knowledge c n s
      | SetBasedSolver \<Rightarrow> SetBasedSolver_add_knowledge c n s)"

definition SetBasedSolver_analyze_knowledge :: "Solver \<Rightarrow> error + Solver" where
  "SetBasedSolver_analyze_knowledge s =
     (let s1 = remove_null_sentence s
      in if guess_method s1 = 1 then GC_analyze_knowledge s1
         else if guess_method s1 = 2 then PT_analyze_knowledge s1
         else Inr s1)"

definition analyze_knowledge :: "Solver \<Rightarrow> error + Solver" where
  "analyze_knowledge s =
     (case solver_class s of
        GenerateConfigurationSolver \<Rightarrow> GC_analyze_knowledge s
      | ProbabilityTheorySolver \<Rightarrow> PT_analyze_knowledge s
      | SetBasedSolver \<Rightarrow> SetBasedSolver_analyze_knowledge s)"

section \<open>Solver.make_move\<close>

text \<open>
  The result is the pair returned, \<open>(move, 3)\<close> for a flag or \<open>(move, 1)\<close> for a reveal, and
  the solver after the call; \<open>move\<close> is \<open>None\<close> where the source returns Python's \<open>None\<close> as the
  cell.  Printing is left out.
\<close>

definition make_move :: "Solver \<Rightarrow> error + ((cell option \<times> int) \<times> Solver)" where
  "make_move s =
     (case find (\<lambda>mine. mine \<notin> set (moves_made s)) (mines s) of
        Some mine \<Rightarrow> Inr ((Some mine, 3), s\<lparr>moves_made := pyset_add mine (moves_made s)\<rparr>)
      | None \<Rightarrow>
         (case (if make_safe_move s = None then analyze_knowledge s else Inr s) of
            Inl e \<Rightarrow> Inl e
          | Inr s1 \<Rightarrow>
             (case make_safe_move s1 of
                None \<Rightarrow> Inr ((make_uncertain_move s1, 1), s1\<lparr>guess := guess s1 + 1\<rparr>)
              | Some move \<Rightarrow> Inr ((Some move, 1), s1))))"

section \<open>The board (sprites.py, settings.py)\<close>

text \<open>
  The settings that the board reads.  \<open>AMOUNT_MINES\<close> is a count (settings.py assigns it
  10, 40 or 99) and is a natural number here; \<open>ROWS\<close> and \<open>COLS\<close> enter the arithmetic on
  coordinates and are integers.
\<close>

record settings =
  TILESIZE :: int
  ROWS :: int
  COLS :: int
  AMOUNT_MINES :: nat

text \<open>
  \<open>Tile.__init__\<close> with its defaults, and \<open>Board.__init__\<close>: a list of \<open>COLS\<close> columns of
  \<open>ROWS\<close> tiles each, indexed by column and then by row.  The off-screen surface of the board
  is used for drawing only and is left out of the record.
\<close>

definition Tile_init :: "settings \<Rightarrow> int \<Rightarrow> int \<Rightarrow> sprite \<Rightarrow> string \<Rightarrow> Tile" where
  "Tile_init st x y img ty =
     \<lparr>tile_x = x * TILESIZE st, tile_y = y * TILESIZE st, tile_image = img, tile_type = ty,
      nearby_mine = 0, revealed = False, flagged = False\<rparr>"

record Board =
  board_list :: "Tile list list"
  first_click :: bool
  dug :: "cell list"

definition Board_init :: "settings \<Rightarrow> Board" where
  "Board_init st =
     \<lparr>board_list =
        map (\<lambda>col. map (\<lambda>row. Tile_init st col row tile_empty ''.'') [0 ..ROWS st - 1])
          [0 ..COLS st - 1],
      first_click = False, dug = []\<rparr>"

text \<open>
  Python's list indexing: the position that index \<open>i\<close> names in a list of length \<open>n\<close>.  A
  negative index counts from the end; an index outside \<open>-n .. n-1\<close> raises IndexError.
\<close>

definition py_pos :: "nat \<Rightarrow> int \<Rightarrow> error + nat" where
  "py_pos n i =
     (if 0 \<le> i \<and> i < int n then Inr (nat i)
      else if - int n \<le> i \<and> i < 0 then Inr (nat (int n + i))
      else Inl IndexError)"

text \<open>\<open>board_list[x][y]\<close>, read and updated in place (the tile object is changed by \<open>f\<close>).\<close>

definition tile_at :: "Tile list list \<Rightarrow> int \<Rightarrow> int \<Rightarrow> error + Tile" where
  "tile_at bl x y =
     (case py_pos (length bl) x of
        Inl e \<Rightarrow> Inl e
      | Inr i \<Rightarrow>
         (case py_pos (length (bl ! i)) y of
            Inl e \<Rightarrow> Inl e
          | Inr j \<Rightarrow> Inr (bl ! i ! j)))"

definition tile_change :: "(Tile \<Rightarrow> Tile) \<Rightarrow> Tile list list \<Rightarrow> int \<Rightarrow> int \<Rightarrow> error + Tile list list" where
  "tile_change f bl x y =
     (case py_pos (length bl) x of
        Inl e \<Rightarrow> Inl e
      | Inr i \<Rightarrow>
         (case py_pos (length (bl ! i)) y of
            Inl e \<Rightarrow> Inl e
          | Inr j \<Rightarrow> Inr (bl[i := (bl ! i)[j := f (bl ! i ! j)]])))"

definition is_inside :: "settings \<Rightarrow> int \<Rightarrow> int \<Rightarrow> bool" where
  "is_inside st x y = (0 \<le> x \<and> x < COLS st \<and> 0 \<le> y \<and> y < ROWS st)"

text \<open>
  \<open>place_mines\<close>.  The random draws are a parameter: the list of the pairs that the calls
  of \<open>random.randint\<close> return, in order.  \<open>place_one_mine\<close> is the \<open>while True\<close> loop; it gives
  \<open>None\<close> when the draws run out before a tile takes the mine, which stands for a run that
  does not return on these draws.  The result is the board and the draws left.
\<close>

fun place_one_mine ::
  "cell \<Rightarrow> cell list \<Rightarrow> Tile list list \<Rightarrow> (error + Tile list list \<times> cell list) option" where
  "place_one_mine fc [] bl = None"
| "place_one_mine fc (p # draws) bl =
     (case tile_at bl (fst p) (snd p) of
        Inl e \<Rightarrow> Some (Inl e)
      | Inr t \<Rightarrow>
         (if tile_type t = ''.'' \<and> p \<noteq> fc then
            (case tile_change (\<lambda>t. t\<lparr>tile_image := tile_mine, tile_type := ''X''\<rparr>)
                    bl (fst p) (snd p) of
               Inl e \<Rightarrow> Some (Inl e)
             | Inr bl' \<Rightarrow> Some (Inr (bl', draws)))
          else place_one_mine fc draws bl))"

fun place_n_mines ::
  "nat \<Rightarrow> cell \<Rightarrow> cell list \<Rightarrow> Tile list list \<Rightarrow> (error + Tile list list \<times> cell list) option" where
  "place_n_mines 0 fc draws bl = Some (Inr (bl, draws))"
| "place_n_mines (Suc n) fc draws bl =
     (case place_one_mine fc draws bl of
        None \<Rightarrow> None
      | Some (Inl e) \<Rightarrow> Some (Inl e)
      | Some (Inr (bl', draws')) \<Rightarrow> place_n_mines n fc draws' bl')"

definition place_mines ::
  "settings \<Rightarrow> int \<Rightarrow> int \<Rightarrow> cell list \<Rightarrow> Board \<Rightarrow> (error + Board \<times> cell list) option" where
  "place_mines st fcx fcy draws b =
     (case place_n_mines (AMOUNT_MINES st) (fcx, fcy) draws (board_list b) of
        None \<Rightarrow> None
      | Some (Inl e) \<Rightarrow> Some (Inl e)
      | Some (Inr (bl, draws')) \<Rightarrow> Some (Inr (b\<lparr>board_list := bl\<rparr>, draws')))"

text \<open>
  \<open>check_neighbours\<close>: the two loops over the offsets \<open>-1, 0, 1\<close>; the tile is read only when
  \<open>is_inside\<close> holds (\<open>and\<close> evaluates its second operand only then).
\<close>

definition offsets :: "cell list" where
  "offsets = concat (map (\<lambda>x_offset. map (\<lambda>y_offset. (x_offset, y_offset)) [- 1 ..1]) [- 1 ..1])"

definition check_neighbours_step ::
  "settings \<Rightarrow> Tile list list \<Rightarrow> int \<Rightarrow> int \<Rightarrow> cell \<Rightarrow> int \<Rightarrow> error + int" where
  "check_neighbours_step st bl x y off total_mines =
     (let neighbour_x = x + fst off; neighbour_y = y + snd off
      in if is_inside st neighbour_x neighbour_y then
           (case tile_at bl neighbour_x neighbour_y of
              Inl e \<Rightarrow> Inl e
            | Inr t \<Rightarrow> Inr (if tile_type t = ''X'' then total_mines + 1 else total_mines))
         else Inr total_mines)"

definition check_neighbours :: "settings \<Rightarrow> Tile list list \<Rightarrow> int \<Rightarrow> int \<Rightarrow> error + int" where
  "check_neighbours st bl x y = foldE (check_neighbours_step st bl x y) offsets 0"

text \<open>
  \<open>place_clues\<close>: the loops over the columns and the rows; \<open>settings.tile_numbers\<close> has eight
  entries, so a count above 8 would raise IndexError.
\<close>

definition all_cells :: "settings \<Rightarrow> cell list" where
  "all_cells st = concat (map (\<lambda>x. map (\<lambda>y. (x, y)) [0 ..ROWS st - 1]) [0 ..COLS st - 1])"

definition place_clue :: "settings \<Rightarrow> cell \<Rightarrow> Tile list list \<Rightarrow> error + Tile list list" where
  "place_clue st p bl =
     (case tile_at bl (fst p) (snd p) of
        Inl e \<Rightarrow> Inl e
      | Inr t \<Rightarrow>
         (if tile_type t \<noteq> ''X'' then
            (case check_neighbours st bl (fst p) (snd p) of
               Inl e \<Rightarrow> Inl e
             | Inr total_mines \<Rightarrow>
                (if total_mines > 0 then
                   (if total_mines - 1 < 8 then
                      tile_change
                        (\<lambda>t. t\<lparr>tile_image := tile_numbers (nat (total_mines - 1)),
                               tile_type := ''C'', nearby_mine := total_mines\<rparr>)
                        bl (fst p) (snd p)
                    else Inl IndexError)
                 else Inr bl))
          else Inr bl))"

definition place_clues :: "settings \<Rightarrow> Board \<Rightarrow> error + Board" where
  "place_clues st b =
     (case foldE (place_clue st) (all_cells st) (board_list b) of
        Inl e \<Rightarrow> Inl e
      | Inr bl \<Rightarrow> Inr (b\<lparr>board_list := bl\<rparr>))"

section \<open>Lemmas on the solver\<close>

text \<open>
  \<open>marks_only s s1\<close>: the solver \<open>s1\<close> differs from \<open>s\<close> at most in \<open>safes\<close>, \<open>mines\<close> and
  the sentences of \<open>knowledge\<close> (not in their number).  \<open>appearances cfgs c\<close> is the number of
  configurations of the list that hold the cell; \<open>sentence_cells ks\<close> is the set of cells that
  the sentences mention.
\<close>

definition marks_only :: "Solver \<Rightarrow> Solver \<Rightarrow> bool" where
  "marks_only s s1 =
     (solver_class s1 = solver_class s \<and> width s1 = width s \<and> height s1 = height s
      \<and> amount_mines s1 = amount_mines s \<and> moves_made s1 = moves_made s
      \<and> next_uncertain_move s1 = next_uncertain_move s \<and> print_progress s1 = print_progress s
      \<and> guess s1 = guess s \<and> guess_method s1 = guess_method s
      \<and> length (knowledge s1) = length (knowledge s))"

lemma marks_only_refl: "marks_only s s"
  by (simp add: marks_only_def)

lemma marks_only_trans: "marks_only s s1 \<Longrightarrow> marks_only s1 s2 \<Longrightarrow> marks_only s s2"
  by (simp add: marks_only_def)

lemma marks_only_mark_safe: "marks_only s (mark_safe c s)"
  by (simp add: marks_only_def mark_safe_def)

lemma marks_only_mark_mine: "marks_only s (mark_mine c s)"
  by (simp add: marks_only_def mark_mine_def)

lemma set_pyset_add: "set (pyset_add x xs) = insert x (set xs)"
  by (auto simp: pyset_add_def)

lemma mark_safe_sets:
  "set (safes (mark_safe c s)) = insert c (set (safes s))" "mines (mark_safe c s) = mines s"
  by (simp_all add: mark_safe_def set_pyset_add)

lemma mark_mine_sets:
  "set (mines (mark_mine c s)) = insert c (set (mines s))" "safes (mark_mine c s) = safes s"
  by (simp_all add: mark_mine_def set_pyset_add)

lemma GC_mark_step_pair:
  "GC_mark_step n (c, v) (s, f) =
     (if v = 0 then (mark_safe c s, True)
      else if v = int n then (mark_mine c s, f) else (s, f))"
  by (simp add: GC_mark_step_def)

lemma GC_mark_fold:
  assumes "fold (GC_mark_step n) es (s, f) = (s1, f1)"
  shows "set (safes s1) = set (safes s) \<union> {c. (c, 0) \<in> set es}
       \<and> set (mines s1) = set (mines s) \<union> {c. (c, int n) \<in> set es \<and> n \<noteq> 0}
       \<and> f1 = (f \<or> {c. (c, 0) \<in> set es} \<noteq> {})
       \<and> marks_only s s1"
  using assms
proof (induction es arbitrary: s f)
  case Nil
  then show ?case by (simp add: marks_only_refl)
next
  case (Cons e es)
  obtain c v where e: "e = (c, v)" by (cases e)
  show ?case
  proof (cases "v = 0")
    case True
    have zs: "{c'. (c', 0) \<in> set (e # es)} = insert c {c'. (c', 0) \<in> set es}"
      using e True by auto
    have ns: "{c'. (c', int n) \<in> set (e # es) \<and> n \<noteq> 0} = {c'. (c', int n) \<in> set es \<and> n \<noteq> 0}"
      using e True by auto
    from Cons.prems e True have "fold (GC_mark_step n) es (mark_safe c s, True) = (s1, f1)"
      by (simp add: GC_mark_step_pair)
    from Cons.IH [OF this]
    have "set (safes s1) = insert c (set (safes s)) \<union> {c. (c, 0) \<in> set es}"
      and "set (mines s1) = set (mines s) \<union> {c. (c, int n) \<in> set es \<and> n \<noteq> 0}"
      and "f1" and "marks_only (mark_safe c s) s1"
      by (simp_all add: mark_safe_sets)
    then show ?thesis
      unfolding zs ns using marks_only_trans [OF marks_only_mark_safe] e True by simp
  next
    case False
    have zs: "{c'. (c', 0) \<in> set (e # es)} = {c'. (c', 0) \<in> set es}"
      using e False by auto
    show ?thesis
    proof (cases "v = int n")
      case True
      have ns: "{c'. (c', int n) \<in> set (e # es) \<and> n \<noteq> 0} = insert c {c'. (c', int n) \<in> set es \<and> n \<noteq> 0}"
        using e True False by auto
      from Cons.prems e True False have "fold (GC_mark_step n) es (mark_mine c s, f) = (s1, f1)"
        by (simp add: GC_mark_step_pair)
      from Cons.IH [OF this]
      have "set (safes s1) = set (safes s) \<union> {c. (c, 0) \<in> set es}"
        and "set (mines s1) = insert c (set (mines s)) \<union> {c. (c, int n) \<in> set es \<and> n \<noteq> 0}"
        and "f1 = (f \<or> {c. (c, 0) \<in> set es} \<noteq> {})" and "marks_only (mark_mine c s) s1"
        by (simp_all add: mark_mine_sets)
      then show ?thesis
        unfolding zs ns using marks_only_trans [OF marks_only_mark_mine] e False by simp
    next
      case neq: False
      have ns: "{c'. (c', int n) \<in> set (e # es) \<and> n \<noteq> 0} = {c'. (c', int n) \<in> set es \<and> n \<noteq> 0}"
        using e neq by auto
      from Cons.prems e neq False have "fold (GC_mark_step n) es (s, f) = (s1, f1)"
        by (simp add: GC_mark_step_pair)
      from Cons.IH [OF this] show ?thesis
        unfolding zs ns using e False by simp
    qed
  qed
qed


lemma fold_update_zero:
  "distinct (map fst h) \<Longrightarrow>
     distinct (map fst (fold (\<lambda>c h. AList.update c (0::int) h) cs h))
     \<and> map_of (fold (\<lambda>c h. AList.update c 0 h) cs h) =
         (\<lambda>k. if k \<in> set cs then Some 0 else map_of h k)"
proof (induction cs arbitrary: h)
  case Nil
  then show ?case by simp
next
  case (Cons c cs)
  have d: "distinct (map fst (AList.update c (0::int) h))"
    using Cons.prems by (rule AList.distinct_update)
  from Cons.IH [OF d] show ?case
    by (auto simp: AList.update_conv' fun_eq_iff)
qed

lemma histogram_init_fold:
  "distinct (map fst h) \<Longrightarrow>
     distinct (map fst (fold (\<lambda>sn h. fold (\<lambda>c h. AList.update c (0::int) h) (cells sn) h) ks h))
     \<and> map_of (fold (\<lambda>sn h. fold (\<lambda>c h. AList.update c 0 h) (cells sn) h) ks h) =
         (\<lambda>k. if k \<in> (\<Union>sn\<in>set ks. set (cells sn)) then Some 0 else map_of h k)"
proof (induction ks arbitrary: h)
  case Nil
  then show ?case by simp
next
  case (Cons sn ks)
  note step = fold_update_zero [OF Cons.prems, of "cells sn"]
  from Cons.IH [OF step [THEN conjunct1]] step [THEN conjunct2]
  show ?case by (auto simp: fun_eq_iff)
qed

lemma histogram_init_distinct: "distinct (map fst (histogram_init ks))"
  using histogram_init_fold [of "[]" ks] by (simp add: histogram_init_def)

lemma histogram_init_map_of:
  "map_of (histogram_init ks) k = (if k \<in> (\<Union>sn\<in>set ks. set (cells sn)) then Some 0 else None)"
  using histogram_init_fold [of "[]" ks] by (simp add: histogram_init_def)

lemma combinations_subset: "xs \<in> set (combinations ys r) \<Longrightarrow> set xs \<subseteq> set ys"
  by (induction ys r arbitrary: xs rule: combinations.induct) fastforce+

lemma extend_configuration_sound:
  assumes "cfg' \<in> set (extend_configuration sn ic cfg)"
  shows "distinct cfg' \<and> set cfg' \<subseteq> set cfg \<union> set (cells sn)"
proof -
  from assms obtain choice where
    c: "choice \<in> set (combinations (pyset_difference (cells sn) ic)
                        (nat (count sn - int (length (pyset_intersection (cells sn) cfg)))))"
    and cfg': "cfg' = pyset_union cfg choice"
    by (auto simp: extend_configuration_def Let_def split: if_splits)
  from combinations_subset [OF c] have "set choice \<subseteq> set (cells sn)"
    by (auto simp: pyset_difference_def)
  then show ?thesis by (auto simp: cfg' pyset_union_def)
qed

lemma configuration_fold_sound:
  assumes "\<forall>cfg\<in>set (fst st). distinct cfg \<and> set cfg \<subseteq> A"
  shows "\<forall>cfg\<in>set (fst (fold configuration_step ks st)).
           distinct cfg \<and> set cfg \<subseteq> A \<union> (\<Union>sn\<in>set ks. set (cells sn))"
  using assms
proof (induction ks arbitrary: st A)
  case Nil
  then show ?case by simp
next
  case (Cons sn ks)
  have "\<forall>cfg\<in>set (fst (configuration_step sn st)). distinct cfg \<and> set cfg \<subseteq> A \<union> set (cells sn)"
    using Cons.prems extend_configuration_sound
    by (fastforce simp: configuration_step_def)
  from Cons.IH [OF this] show ?case by (simp add: Un_assoc)
qed

lemma generate_configurations_sound:
  "cfg \<in> set (generate_configurations ks) \<Longrightarrow>
     distinct cfg \<and> set cfg \<subseteq> (\<Union>sn\<in>set ks. set (cells sn))"
  using configuration_fold_sound [of "([[]], [])" "{}" ks]
  by (simp add: generate_configurations_def)

lemma dict_modify_present:
  "map_of d k = Some v \<Longrightarrow> dict_modify k f d = Inr (AList.update k (f v) d)"
  by (simp add: dict_modify_def)

lemma update_present_keys:
  "map_of d k = Some v \<Longrightarrow> map fst (AList.update k w d) = map fst d"
  by (simp add: AList.update_keys map_of_eq_None_iff [symmetric] del: map_of_eq_None_iff)

lemma count_configuration:
  assumes "set cfg \<subseteq> dom (map_of h)"
  shows "\<exists>h'. foldE (\<lambda>c. dict_modify c (\<lambda>v. v + 1)) cfg h = Inr h'
            \<and> map fst h' = map fst h
            \<and> (\<forall>k. map_of h' k = map_option (\<lambda>v. v + int (count_list cfg k)) (map_of h k))"
  using assms
proof (induction cfg arbitrary: h)
  case Nil
  then show ?case by (simp add: option.map_ident)
next
  case (Cons c cfg)
  then obtain v where v: "map_of h c = Some v" by auto
  let ?h1 = "AList.update c (v + 1) h"
  have m1: "map_of ?h1 = (map_of h)(c \<mapsto> v + 1)" by (rule AList.update_conv')
  have k1: "map fst ?h1 = map fst h" using v by (rule update_present_keys)
  have "set cfg \<subseteq> dom (map_of ?h1)" using Cons.prems by (auto simp: m1)
  from Cons.IH [OF this] obtain h' where
    h': "foldE (\<lambda>c. dict_modify c (\<lambda>v. v + 1)) cfg ?h1 = Inr h'"
      "map fst h' = map fst ?h1"
      "\<And>k. map_of h' k = map_option (\<lambda>v. v + int (count_list cfg k)) (map_of ?h1 k)"
    by blast
  have "foldE (\<lambda>c. dict_modify c (\<lambda>v. v + 1)) (c # cfg) h = Inr h'"
    using h'(1) v by (simp add: dict_modify_present)
  moreover have "map fst h' = map fst h" using h'(2) k1 by simp
  moreover have "map_of h' k = map_option (\<lambda>v. v + int (count_list (c # cfg) k)) (map_of h k)" for k
    using h'(3) [of k] v by (simp add: m1)
  ultimately show ?case by blast
qed

lemma count_configurations:
  assumes "\<forall>cfg\<in>set cfgs. set cfg \<subseteq> dom (map_of h)"
  shows "\<exists>h'. histogram_count cfgs h = Inr h'
            \<and> map fst h' = map fst h
            \<and> (\<forall>k. map_of h' k =
                  map_option (\<lambda>v. v + (\<Sum>cfg\<leftarrow>cfgs. int (count_list cfg k))) (map_of h k))"
  using assms unfolding histogram_count_def
proof (induction cfgs arbitrary: h)
  case Nil
  then show ?case by (simp add: option.map_ident)
next
  case (Cons cfg cfgs)
  from Cons.prems have "set cfg \<subseteq> dom (map_of h)" by simp
  from count_configuration [OF this] obtain h1 where
    h1: "foldE (\<lambda>c. dict_modify c (\<lambda>v. v + 1)) cfg h = Inr h1"
      "map fst h1 = map fst h"
      "\<And>k. map_of h1 k = map_option (\<lambda>v. v + int (count_list cfg k)) (map_of h k)"
    by blast
  have "dom (map_of h1) = dom (map_of h)"
    using h1(2) by (metis dom_map_of_conv_image_fst set_map)
  with Cons.prems have "\<forall>cfg\<in>set cfgs. set cfg \<subseteq> dom (map_of h1)" by simp
  from Cons.IH [OF this] obtain h' where
    h': "foldE (\<lambda>configuration. foldE (\<lambda>c. dict_modify c (\<lambda>v. v + 1)) configuration) cfgs h1 = Inr h'"
      "map fst h' = map fst h1"
      "\<And>k. map_of h' k =
            map_option (\<lambda>v. v + (\<Sum>cfg\<leftarrow>cfgs. int (count_list cfg k))) (map_of h1 k)"
    by blast
  have "foldE (\<lambda>configuration. foldE (\<lambda>c. dict_modify c (\<lambda>v. v + 1)) configuration) (cfg # cfgs) h = Inr h'"
    using h1(1) h'(1) by simp
  moreover have "map fst h' = map fst h" using h'(2) h1(2) by simp
  moreover have "map_of h' k =
      map_option (\<lambda>v. v + (\<Sum>cfg\<leftarrow>cfg # cfgs. int (count_list cfg k))) (map_of h k)" for k
    using h'(3) [of k] h1(3) [of k] by (cases "map_of h k") (simp_all add: add.assoc)
  ultimately show ?case by blast
qed

definition appearances :: "cell list list \<Rightarrow> cell \<Rightarrow> nat" where
  "appearances cfgs c = length (filter (\<lambda>cfg. c \<in> set cfg) cfgs)"

lemma count_list_distinct: "distinct xs \<Longrightarrow> count_list xs k = (if k \<in> set xs then 1 else 0)"
  by (induction xs) auto

lemma sum_count_appearances:
  "\<forall>cfg\<in>set cfgs. distinct cfg \<Longrightarrow>
     (\<Sum>cfg\<leftarrow>cfgs. int (count_list cfg k)) = int (appearances cfgs k)"
  by (induction cfgs) (simp_all add: appearances_def count_list_distinct)

lemma py_min_fold:
  fixes f :: "'a \<Rightarrow> 'k::linorder"
  shows "fold (\<lambda>y m. if f y < f m then y else m) rest x \<in> set (x # rest)
   \<and> (\<forall>y\<in>set (x # rest). f (fold (\<lambda>y m. if f y < f m then y else m) rest x) \<le> f y)"
proof (induction rest arbitrary: x)
  case Nil
  show ?case by simp
next
  case (Cons y rest)
  show ?case
  proof (cases "f y < f x")
    case True
    with Cons.IH [of y] show ?thesis by (auto intro: order.trans less_imp_le)
  next
    case False
    with Cons.IH [of x] show ?thesis by (auto intro: order.trans)
  qed
qed

lemma py_min_least:
  fixes f :: "'a \<Rightarrow> 'k::linorder"
  assumes "xs \<noteq> []"
  shows "\<exists>b. py_min f xs = Inr b \<and> b \<in> set xs \<and> (\<forall>y\<in>set xs. f b \<le> f y)"
proof -
  from assms obtain x rest where xs: "xs = x # rest" by (cases xs) auto
  show ?thesis unfolding xs using py_min_fold [of f rest x] by (simp add: py_min_def)
qed


definition sentence_cells :: "Sentence list \<Rightarrow> cell set" where
  "sentence_cells ks = (\<Union>sn\<in>set ks. set (cells sn))"

lemma GC_histogram:
  obtains hist where
    "histogram_count (generate_configurations ks) (histogram_init ks) = Inr hist"
    "distinct (map fst hist)"
    "\<And>k. map_of hist k =
       (if k \<in> sentence_cells ks then Some (int (appearances (generate_configurations ks) k))
        else None)"
proof -
  have dom: "dom (map_of (histogram_init ks)) = sentence_cells ks"
    by (auto simp: histogram_init_map_of sentence_cells_def dom_def)
  have "\<forall>cfg\<in>set (generate_configurations ks). set cfg \<subseteq> dom (map_of (histogram_init ks))"
    unfolding dom sentence_cells_def using generate_configurations_sound by blast
  from count_configurations [OF this] obtain hist where
    h: "histogram_count (generate_configurations ks) (histogram_init ks) = Inr hist"
      "map fst hist = map fst (histogram_init ks)"
      "\<And>k. map_of hist k =
          map_option (\<lambda>v. v + (\<Sum>cfg\<leftarrow>generate_configurations ks. int (count_list cfg k)))
            (map_of (histogram_init ks) k)"
    by blast
  have d: "\<forall>cfg\<in>set (generate_configurations ks). distinct cfg"
    using generate_configurations_sound by blast
  have "map_of hist k =
       (if k \<in> sentence_cells ks then Some (int (appearances (generate_configurations ks) k))
        else None)" for k
    using h(3) [of k]
    by (simp add: histogram_init_map_of sum_count_appearances [OF d] sentence_cells_def)
  moreover have "distinct (map fst hist)"
    using h(2) histogram_init_distinct by simp
  ultimately show ?thesis using h(1) that by blast
qed

lemma GC_histogram_entries:
  assumes "distinct (map fst hist)"
    and "\<And>k. map_of hist k = (if k \<in> K then Some (int (a k)) else None)"
  shows "((c, v) \<in> set hist) = (c \<in> K \<and> v = int (a c))"
  using assms(2) [of c] map_of_eq_Some_iff [OF assms(1), of c v] by (auto split: if_splits)

lemma choose_uncertain_move_frame:
  assumes "choose_uncertain_move b r d s = Inr s1"
  shows "safes s1 = safes s \<and> mines s1 = mines s \<and> moves_made s1 = moves_made s
       \<and> knowledge s1 = knowledge s"
  using assms
  by (auto simp: choose_uncertain_move_def Let_def split: if_splits option.splits)

lemma PT_mark_nothing: "PT_mark d s = (s, False)"
proof -
  have "fold PT_mark_step d st = st" for st
    by (induction d) (simp_all add: PT_mark_step_def Probability_eq_int_def)
  then show ?thesis by (simp add: PT_mark_def)
qed

lemma PT_analyze_knowledge_frame:
  assumes "PT_analyze_knowledge s = Inr s1"
  shows "safes s1 = safes s \<and> mines s1 = mines s \<and> moves_made s1 = moves_made s"
  using assms choose_uncertain_move_frame
  by (fastforce simp: PT_analyze_knowledge_def Let_def PT_mark_nothing
        split: if_splits sum.splits)

lemma GC_analyze_knowledge_frame:
  assumes "GC_analyze_knowledge s = Inr s1"
  shows "moves_made s1 = moves_made s
       \<and> set (mines s) \<subseteq> set (mines s1)
       \<and> (set (safes s1) - set (safes s)) \<inter> (set (mines s1) - set (mines s)) = {}"
proof (cases "knowledge s = []")
  case True
  with assms show ?thesis by (simp add: GC_analyze_knowledge_def)
next
  case False
  let ?cfgs = "generate_configurations (knowledge s)"
  let ?K = "sentence_cells (knowledge s)"
  obtain hist where
    hc: "histogram_count ?cfgs (histogram_init (knowledge s)) = Inr hist"
    and hd: "distinct (map fst hist)"
    and hm: "\<And>k. map_of hist k = (if k \<in> ?K then Some (int (appearances ?cfgs k)) else None)"
    using GC_histogram [of "knowledge s"] by blast
  have entries: "((c, v) \<in> set hist) = (c \<in> ?K \<and> v = int (appearances ?cfgs c))" for c v
    using hd hm by (rule GC_histogram_entries)
  obtain marked found where m: "GC_mark (length ?cfgs) hist s = (marked, found)"
    by (cases "GC_mark (length ?cfgs) hist s")
  from GC_mark_fold [OF m [unfolded GC_mark_def]]
  have safes_m: "set (safes marked) = set (safes s) \<union> {c. (c, 0) \<in> set hist}"
    and mines_m: "set (mines marked) = set (mines s) \<union> {c. (c, int (length ?cfgs)) \<in> set hist \<and> length ?cfgs \<noteq> 0}"
    and frame: "marks_only s marked"
    by simp_all
  have disj: "{c. (c, 0) \<in> set hist} \<inter> {c. (c, int (length ?cfgs)) \<in> set hist \<and> length ?cfgs \<noteq> 0} = {}"
  proof -
    have False if "(c, 0) \<in> set hist" "(c, int (length ?cfgs)) \<in> set hist" "length ?cfgs \<noteq> 0" for c
      using that by (simp add: entries)
    then show ?thesis by blast
  qed
  have same: "safes s1 = safes marked \<and> mines s1 = mines marked \<and> moves_made s1 = moves_made marked"
    using assms False hc m choose_uncertain_move_frame
    by (fastforce simp: GC_analyze_knowledge_def Let_def split: if_splits sum.splits)
  have "moves_made marked = moves_made s" using frame by (simp add: marks_only_def)
  with same safes_m mines_m disj show ?thesis by auto
qed

lemma remove_null_sentence_frame:
  "safes (remove_null_sentence s) = safes s" "mines (remove_null_sentence s) = mines s"
  "moves_made (remove_null_sentence s) = moves_made s"
  by (simp_all add: remove_null_sentence_def)

lemma analyze_knowledge_frame:
  assumes "analyze_knowledge s = Inr s1"
  shows "moves_made s1 = moves_made s
       \<and> set (mines s) \<subseteq> set (mines s1)
       \<and> (set (safes s1) - set (safes s)) \<inter> (set (mines s1) - set (mines s)) = {}"
proof (cases "solver_class s")
  case GenerateConfigurationSolver
  with assms show ?thesis by (simp add: analyze_knowledge_def GC_analyze_knowledge_frame)
next
  case ProbabilityTheorySolver
  with assms PT_analyze_knowledge_frame [of s s1] show ?thesis
    by (simp add: analyze_knowledge_def)
next
  case SetBasedSolver
  let ?s0 = "remove_null_sentence s"
  from assms SetBasedSolver have
    "(guess_method ?s0 = 1 \<and> GC_analyze_knowledge ?s0 = Inr s1)
     \<or> (guess_method ?s0 = 2 \<and> PT_analyze_knowledge ?s0 = Inr s1)
     \<or> s1 = ?s0"
    by (auto simp: analyze_knowledge_def SetBasedSolver_analyze_knowledge_def Let_def
          split: if_splits)
  then show ?thesis
    using GC_analyze_knowledge_frame [of ?s0 s1] PT_analyze_knowledge_frame [of ?s0 s1]
    by (auto simp: remove_null_sentence_frame)
qed

lemma make_safe_move_Some:
  "make_safe_move s = Some c \<Longrightarrow> c \<in> set (safes s) \<and> c \<notin> set (moves_made s)"
proof -
  assume "make_safe_move s = Some c"
  then have "c \<in> set (pyset_difference (safes s) (moves_made s))"
    by (auto simp: make_safe_move_def split: list.splits)
  then show ?thesis by (simp add: pyset_difference_def)
qed

lemma make_safe_move_None:
  "make_safe_move s = None \<Longrightarrow> set (safes s) \<subseteq> set (moves_made s)"
proof -
  assume "make_safe_move s = None"
  then have "pyset_difference (safes s) (moves_made s) = []"
    by (auto simp: make_safe_move_def split: list.splits)
  then show ?thesis by (auto simp: pyset_difference_def filter_empty_conv)
qed

section \<open>Lemmas on the board\<close>

text \<open>
  \<open>wf_grid st bl\<close>: the grid has \<open>COLS\<close> columns of \<open>ROWS\<close> tiles.  \<open>inside st\<close> is the set of the
  coordinates on the board and \<open>tile_of bl p\<close> the tile at such a coordinate.  \<open>mine_cells\<close>
  is the set of the coordinates whose tile has type \<open>"X"\<close>; \<open>block3x3 q\<close> is the block of nine
  coordinates around \<open>q\<close>, \<open>neighbours_of q\<close> the eight of them other than \<open>q\<close>, and
  \<open>mines_around\<close> the number of mines in the block.
\<close>

definition wf_grid :: "settings \<Rightarrow> Tile list list \<Rightarrow> bool" where
  "wf_grid st bl =
     (length bl = nat (COLS st) \<and> (\<forall>i < length bl. length (bl ! i) = nat (ROWS st)))"

definition inside :: "settings \<Rightarrow> cell set" where
  "inside st = {p. is_inside st (fst p) (snd p)}"

definition tile_of :: "Tile list list \<Rightarrow> cell \<Rightarrow> Tile" where
  "tile_of bl p = bl ! nat (fst p) ! nat (snd p)"

lemma finite_inside: "finite (inside st)"
proof -
  have "inside st \<subseteq> {0 ..< COLS st} \<times> {0 ..< ROWS st}"
    by (auto simp: inside_def is_inside_def)
  then show ?thesis by (rule finite_subset) simp
qed

lemma py_pos_inside: "0 \<le> i \<Longrightarrow> i < int n \<Longrightarrow> py_pos n i = Inr (nat i)"
  by (simp add: py_pos_def)

lemma tile_at_inside:
  assumes "wf_grid st bl" and "p \<in> inside st"
  shows "tile_at bl (fst p) (snd p) = Inr (tile_of bl p)"
proof -
  from assms have x: "0 \<le> fst p" "fst p < int (length bl)"
    and y: "0 \<le> snd p" "snd p < int (length (bl ! nat (fst p)))"
    by (auto simp: wf_grid_def inside_def is_inside_def)
  show ?thesis
    by (simp add: tile_at_def py_pos_inside [OF x] py_pos_inside [OF y] tile_of_def)
qed

lemma tile_change_inside:
  assumes "wf_grid st bl" and "p \<in> inside st"
  shows "\<exists>bl'. tile_change f bl (fst p) (snd p) = Inr bl' \<and> wf_grid st bl'
           \<and> (\<forall>q\<in>inside st. tile_of bl' q = (if q = p then f (tile_of bl p) else tile_of bl q))"
proof -
  from assms have x: "0 \<le> fst p" "fst p < int (length bl)"
    and y: "0 \<le> snd p" "snd p < int (length (bl ! nat (fst p)))"
    by (auto simp: wf_grid_def inside_def is_inside_def)
  let ?bl' = "bl[nat (fst p) := (bl ! nat (fst p))[nat (snd p) := f (bl ! nat (fst p) ! nat (snd p))]]"
  have eq: "tile_change f bl (fst p) (snd p) = Inr ?bl'"
    by (simp add: tile_change_def py_pos_inside [OF x] py_pos_inside [OF y])
  have nx: "nat (fst p) < length bl" using x by simp
  have wf: "wf_grid st ?bl'"
    unfolding wf_grid_def
  proof (intro conjI allI impI)
    show "length ?bl' = nat (COLS st)" using assms(1) by (simp add: wf_grid_def)
  next
    fix i assume "i < length ?bl'"
    then have i: "i < length bl" by simp
    with assms(1) have "length (bl ! i) = nat (ROWS st)" by (simp add: wf_grid_def)
    moreover from assms(1) nx have "length (bl ! nat (fst p)) = nat (ROWS st)"
      by (simp add: wf_grid_def)
    ultimately show "length (?bl' ! i) = nat (ROWS st)"
      using i by (cases "i = nat (fst p)") (simp_all add: nth_list_update)
  qed
  have "tile_of ?bl' q = (if q = p then f (tile_of bl p) else tile_of bl q)" if "q \<in> inside st" for q
  proof -
    from that assms(1) have qx: "0 \<le> fst q" "nat (fst q) < length bl"
      and qy: "0 \<le> snd q" "nat (snd q) < length (bl ! nat (fst q))"
      by (auto simp: wf_grid_def inside_def is_inside_def)
    have "q = p \<longleftrightarrow> nat (fst q) = nat (fst p) \<and> nat (snd q) = nat (snd p)"
      using qx(1) qy(1) x(1) y(1) by (auto simp: prod_eq_iff)
    then show ?thesis
      using qx qy x y by (auto simp: tile_of_def nth_list_update)
  qed
  with eq wf show ?thesis by blast
qed

lemma length_upto_zero: "length [0 ..n - 1] = nat n"
  by simp

lemma Board_init_grid:
  "wf_grid st (board_list (Board_init st))"
  "p \<in> inside st \<Longrightarrow>
     tile_of (board_list (Board_init st)) p = Tile_init st (fst p) (snd p) tile_empty ''.''"
  by (auto simp: wf_grid_def Board_init_def tile_of_def inside_def is_inside_def)

definition mine_tile :: "Tile \<Rightarrow> Tile" where
  "mine_tile t = t\<lparr>tile_image := tile_mine, tile_type := ''X''\<rparr>"

lemma place_one_mine_result:
  assumes "wf_grid st bl" and "set draws \<subseteq> inside st"
    and "place_one_mine fc draws bl = Some r"
  shows "\<exists>bl' draws' p. r = Inr (bl', draws') \<and> wf_grid st bl' \<and> p \<in> inside st \<and> p \<noteq> fc
           \<and> tile_type (tile_of bl p) = ''.'' \<and> set draws' \<subseteq> inside st
           \<and> (\<forall>q\<in>inside st. tile_of bl' q = (if q = p then mine_tile (tile_of bl p) else tile_of bl q))"
  using assms(2,3)
proof (induction draws)
  case Nil
  then show ?case by simp
next
  case (Cons p draws)
  from Cons.prems have p: "p \<in> inside st" and rest: "set draws \<subseteq> inside st" by simp_all
  have t: "tile_at bl (fst p) (snd p) = Inr (tile_of bl p)"
    using assms(1) p by (rule tile_at_inside)
  show ?case
  proof (cases "tile_type (tile_of bl p) = ''.'' \<and> p \<noteq> fc")
    case True
    from tile_change_inside [OF assms(1) p, of "\<lambda>t. t\<lparr>tile_image := tile_mine, tile_type := ''X''\<rparr>"]
    obtain bl' where
      c: "tile_change (\<lambda>t. t\<lparr>tile_image := tile_mine, tile_type := ''X''\<rparr>) bl (fst p) (snd p) = Inr bl'"
      and wf: "wf_grid st bl'"
      and upd: "\<forall>q\<in>inside st. tile_of bl' q = (if q = p then mine_tile (tile_of bl p) else tile_of bl q)"
      unfolding mine_tile_def by blast
    from Cons.prems(2) True t c have "r = Inr (bl', draws)" by simp
    with wf upd p rest True show ?thesis by blast
  next
    case False
    with Cons.prems(2) t have "place_one_mine fc draws bl = Some r" by auto
    from Cons.IH [OF rest this] show ?thesis .
  qed
qed

lemma place_n_mines_result:
  assumes "wf_grid st bl" and "set draws \<subseteq> inside st"
    and "place_n_mines n fc draws bl = Some r"
  shows "\<exists>bl' draws' S. r = Inr (bl', draws') \<and> wf_grid st bl' \<and> S \<subseteq> inside st \<and> card S = n
           \<and> fc \<notin> S \<and> (\<forall>q\<in>S. tile_type (tile_of bl q) = ''.'')
           \<and> (\<forall>q\<in>inside st. tile_of bl' q = (if q \<in> S then mine_tile (tile_of bl q) else tile_of bl q))"
  using assms
proof (induction n arbitrary: draws bl)
  case 0
  then have "r = Inr (bl, draws)" by simp
  with "0.prems"(1) show ?case by (intro exI [of _ bl] exI [of _ draws] exI [of _ "{}"]) simp
next
  case (Suc n)
  from Suc.prems(3) obtain r1 where r1: "place_one_mine fc draws bl = Some r1"
    by (auto split: option.splits)
  from place_one_mine_result [OF Suc.prems(1,2) r1] obtain bl1 draws1 p where
    one: "r1 = Inr (bl1, draws1)" "wf_grid st bl1" "p \<in> inside st" "p \<noteq> fc"
      "tile_type (tile_of bl p) = ''.''" "set draws1 \<subseteq> inside st"
      "\<forall>q\<in>inside st. tile_of bl1 q = (if q = p then mine_tile (tile_of bl p) else tile_of bl q)"
    by blast
  from Suc.prems(3) r1 one(1) have "place_n_mines n fc draws1 bl1 = Some r" by simp
  from Suc.IH [OF one(2) one(6) this] obtain bl' draws' S where
    rest: "r = Inr (bl', draws')" "wf_grid st bl'" "S \<subseteq> inside st" "card S = n" "fc \<notin> S"
      "\<forall>q\<in>S. tile_type (tile_of bl1 q) = ''.''"
      "\<forall>q\<in>inside st. tile_of bl' q = (if q \<in> S then mine_tile (tile_of bl1 q) else tile_of bl1 q)"
    by blast
  have pS: "p \<notin> S"
  proof
    assume "p \<in> S"
    with rest(6) have "tile_type (tile_of bl1 p) = ''.''" by blast
    moreover from one(3,7) have "tile_type (tile_of bl1 p) = ''X''" by (simp add: mine_tile_def)
    ultimately show False by simp
  qed
  have fin: "finite S" using rest(3) finite_inside by (rule finite_subset)
  have c: "card (insert p S) = Suc n" using fin pS rest(4) by simp
  have types: "\<forall>q\<in>insert p S. tile_type (tile_of bl q) = ''.''"
  proof
    fix q assume q: "q \<in> insert p S"
    show "tile_type (tile_of bl q) = ''.''"
    proof (cases "q = p")
      case True with one(5) show ?thesis by simp
    next
      case False
      with q have qS: "q \<in> S" by simp
      with rest(3) have "q \<in> inside st" by blast
      with one(7) False have "tile_of bl1 q = tile_of bl q" by simp
      moreover from rest(6) qS have "tile_type (tile_of bl1 q) = ''.''" by blast
      ultimately show ?thesis by simp
    qed
  qed
  have upd: "\<forall>q\<in>inside st. tile_of bl' q =
               (if q \<in> insert p S then mine_tile (tile_of bl q) else tile_of bl q)"
  proof
    fix q assume q: "q \<in> inside st"
    show "tile_of bl' q = (if q \<in> insert p S then mine_tile (tile_of bl q) else tile_of bl q)"
      using rest(7) [rule_format, OF q] one(7) [rule_format, OF q] pS by auto
  qed
  from rest(1,2,3,5) one(3,4) c types upd show ?case
    by (intro exI [of _ bl'] exI [of _ draws'] exI [of _ "insert p S"]) simp
qed

definition mine_cells :: "settings \<Rightarrow> Tile list list \<Rightarrow> cell set" where
  "mine_cells st bl = {p \<in> inside st. tile_type (tile_of bl p) = ''X''}"

definition block3x3 :: "cell \<Rightarrow> cell set" where
  "block3x3 q = {r. \<bar>fst r - fst q\<bar> \<le> 1 \<and> \<bar>snd r - snd q\<bar> \<le> 1}"

definition mines_around :: "settings \<Rightarrow> Tile list list \<Rightarrow> cell \<Rightarrow> int" where
  "mines_around st bl q = int (card (mine_cells st bl \<inter> block3x3 q))"

definition clue_tile :: "int \<Rightarrow> Tile \<Rightarrow> Tile" where
  "clue_tile n t = t\<lparr>tile_image := tile_numbers (nat (n - 1)), tile_type := ''C'', nearby_mine := n\<rparr>"

lemma offsets_list:
  "offsets = [(- 1, - 1), (- 1, 0), (- 1, 1), (0, - 1), (0, 0), (0, 1), (1, - 1), (1, 0), (1, 1)]"
  by code_simp

lemma distinct_offsets: "distinct offsets"
  by (simp add: offsets_list)

lemma set_offsets: "set offsets = {off. \<bar>fst off\<bar> \<le> 1 \<and> \<bar>snd off\<bar> \<le> 1}"
proof -
  have "set offsets = {- 1 .. 1} \<times> {- 1 .. 1}"
    by (auto simp: offsets_def)
  also have "\<dots> = {off. \<bar>fst off\<bar> \<le> 1 \<and> \<bar>snd off\<bar> \<le> 1}"
    by auto
  finally show ?thesis .
qed

lemma block3x3_image: "block3x3 q = (\<lambda>off. (fst q + fst off, snd q + snd off)) ` set offsets"
proof -
  have "r \<in> (\<lambda>off. (fst q + fst off, snd q + snd off)) ` set offsets" if "r \<in> block3x3 q" for r
  proof -
    have "r = (fst q + fst (fst r - fst q, snd r - snd q), snd q + snd (fst r - fst q, snd r - snd q))"
      by simp
    moreover have "(fst r - fst q, snd r - snd q) \<in> set offsets"
      using that by (simp add: set_offsets block3x3_def)
    ultimately show ?thesis by (rule image_eqI)
  qed
  moreover have "r \<in> block3x3 q" if "r \<in> (\<lambda>off. (fst q + fst off, snd q + snd off)) ` set offsets" for r
    using that by (auto simp: set_offsets block3x3_def)
  ultimately show ?thesis by blast
qed

lemma inj_translate: "inj_on (\<lambda>off. (fst q + fst off, snd q + snd off)) A"
  for q :: cell
  by (auto simp: inj_on_def prod_eq_iff)

lemma card_block3x3: "card (block3x3 q) = 9"
proof -
  have "card (block3x3 q) = card (set offsets)"
    unfolding block3x3_image by (rule card_image) (rule inj_translate)
  also have "\<dots> = length offsets" using distinct_offsets by (rule distinct_card)
  also have "\<dots> = 9" by (simp add: offsets_list)
  finally show ?thesis .
qed

lemma finite_block3x3: "finite (block3x3 q)"
  unfolding block3x3_image by simp

lemma check_neighbours_fold:
  assumes "wf_grid st bl"
  shows "foldE (check_neighbours_step st bl x y) offs t =
           Inr (t + int (length (filter (\<lambda>off. (x + fst off, y + snd off) \<in> mine_cells st bl) offs)))"
proof (induction offs arbitrary: t)
  case Nil
  show ?case by simp
next
  case (Cons off offs)
  have step: "check_neighbours_step st bl x y off t =
      Inr (if (x + fst off, y + snd off) \<in> mine_cells st bl then t + 1 else t)"
  proof (cases "is_inside st (x + fst off) (y + snd off)")
    case True
    then have "(x + fst off, y + snd off) \<in> inside st" by (simp add: inside_def)
    from tile_at_inside [OF assms this] True show ?thesis
      by (simp add: check_neighbours_step_def Let_def mine_cells_def inside_def)
  next
    case False
    then show ?thesis
      by (simp add: check_neighbours_step_def Let_def mine_cells_def inside_def)
  qed
  show ?case by (simp add: step Cons.IH)
qed

lemma check_neighbours_count:
  assumes "wf_grid st bl"
  shows "check_neighbours st bl (fst q) (snd q) = Inr (mines_around st bl q)"
proof -
  let ?f = "\<lambda>off. (fst q + fst off, snd q + snd off)"
  have "length (filter (\<lambda>off. ?f off \<in> mine_cells st bl) offsets)
          = card {off \<in> set offsets. ?f off \<in> mine_cells st bl}"
  proof -
    have "distinct (filter (\<lambda>off. ?f off \<in> mine_cells st bl) offsets)"
      using distinct_offsets by simp
    from distinct_card [OF this] show ?thesis by simp
  qed
  also have "\<dots> = card (?f ` {off \<in> set offsets. ?f off \<in> mine_cells st bl})"
    by (rule card_image [symmetric]) (rule inj_translate)
  also have "?f ` {off \<in> set offsets. ?f off \<in> mine_cells st bl} = mine_cells st bl \<inter> block3x3 q"
    unfolding block3x3_image by blast
  finally show ?thesis
    by (simp add: check_neighbours_def check_neighbours_fold [OF assms] mines_around_def)
qed

lemma mines_around_le_8:
  assumes "q \<notin> mine_cells st bl"
  shows "mines_around st bl q \<le> 8"
proof -
  have "mine_cells st bl \<inter> block3x3 q \<subseteq> block3x3 q - {q}" using assms by blast
  then have "card (mine_cells st bl \<inter> block3x3 q) \<le> card (block3x3 q - {q})"
    by (intro card_mono) (simp_all add: finite_block3x3)
  also have "\<dots> = 8"
  proof -
    have "q \<in> block3x3 q" by (simp add: block3x3_def)
    then have "card (block3x3 q - {q}) = card (block3x3 q) - 1"
      by (rule card_Diff_singleton)
    then show ?thesis by (simp add: card_block3x3)
  qed
  finally show ?thesis by (simp add: mines_around_def)
qed

lemma place_clue_result:
  assumes wf: "wf_grid st bl" and p: "p \<in> inside st"
  shows "\<exists>bl'. place_clue st p bl = Inr bl' \<and> wf_grid st bl'
           \<and> (\<forall>q\<in>inside st. tile_of bl' q =
                 (if q = p \<and> p \<notin> mine_cells st bl \<and> mines_around st bl p > 0
                  then clue_tile (mines_around st bl p) (tile_of bl p) else tile_of bl q))"
proof -
  have t: "tile_at bl (fst p) (snd p) = Inr (tile_of bl p)"
    using wf p by (rule tile_at_inside)
  have cn: "check_neighbours st bl (fst p) (snd p) = Inr (mines_around st bl p)"
    using wf by (rule check_neighbours_count)
  have mine: "p \<in> mine_cells st bl \<longleftrightarrow> tile_type (tile_of bl p) = ''X''"
    using p by (simp add: mine_cells_def)
  show ?thesis
  proof (cases "p \<notin> mine_cells st bl \<and> mines_around st bl p > 0")
    case True
    then have small: "mines_around st bl p - 1 < 8"
      using mines_around_le_8 [of p st bl] by simp
    from tile_change_inside [OF wf p,
        of "\<lambda>t. t\<lparr>tile_image := tile_numbers (nat (mines_around st bl p - 1)),
                       tile_type := ''C'', nearby_mine := mines_around st bl p\<rparr>"]
    obtain bl' where
      c: "tile_change (\<lambda>t. t\<lparr>tile_image := tile_numbers (nat (mines_around st bl p - 1)),
                       tile_type := ''C'', nearby_mine := mines_around st bl p\<rparr>) bl (fst p) (snd p) = Inr bl'"
      and wf': "wf_grid st bl'"
      and upd: "\<forall>q\<in>inside st. tile_of bl' q =
                 (if q = p then clue_tile (mines_around st bl p) (tile_of bl p) else tile_of bl q)"
      unfolding clue_tile_def by blast
    have "place_clue st p bl = Inr bl'"
      using True small mine c by (simp add: place_clue_def t cn)
    with wf' upd True show ?thesis by auto
  next
    case False
    then have "place_clue st p bl = Inr bl"
      using mine by (auto simp: place_clue_def t cn)
    with wf False show ?thesis by auto
  qed
qed

lemma place_clue_mine_cells:
  assumes "\<forall>q\<in>inside st. tile_of bl' q =
                 (if q = p \<and> p \<notin> mine_cells st bl \<and> mines_around st bl p > 0
                  then clue_tile (mines_around st bl p) (tile_of bl p) else tile_of bl q)"
  shows "mine_cells st bl' = mine_cells st bl"
  unfolding mine_cells_def
proof (rule Collect_cong)
  fix q
  show "(q \<in> inside st \<and> tile_type (tile_of bl' q) = ''X'')
      = (q \<in> inside st \<and> tile_type (tile_of bl q) = ''X'')"
  proof (cases "q \<in> inside st")
    case True
    from assms [rule_format, OF True] show ?thesis
      by (cases "q = p \<and> p \<notin> mine_cells st bl \<and> mines_around st bl p > 0")
         (auto simp: clue_tile_def mine_cells_def)
  next
    case False
    then show ?thesis by simp
  qed
qed

lemma clue_tile_idem: "clue_tile n (clue_tile n t) = clue_tile n t"
  by (simp add: clue_tile_def)

lemma place_clues_fold:
  assumes "wf_grid st bl" and "set cs \<subseteq> inside st"
  shows "\<exists>bl'. foldE (place_clue st) cs bl = Inr bl' \<and> wf_grid st bl'
           \<and> mine_cells st bl' = mine_cells st bl
           \<and> (\<forall>q\<in>inside st. tile_of bl' q =
                 (if q \<in> set cs \<and> q \<notin> mine_cells st bl \<and> mines_around st bl q > 0
                  then clue_tile (mines_around st bl q) (tile_of bl q) else tile_of bl q))"
  using assms
proof (induction cs arbitrary: bl)
  case Nil
  then show ?case by simp
next
  case (Cons p cs)
  from Cons.prems have p: "p \<in> inside st" and cs: "set cs \<subseteq> inside st" by simp_all
  from place_clue_result [OF Cons.prems(1) p] obtain bl1 where
    one: "place_clue st p bl = Inr bl1" "wf_grid st bl1"
      "\<forall>q\<in>inside st. tile_of bl1 q =
                 (if q = p \<and> p \<notin> mine_cells st bl \<and> mines_around st bl p > 0
                  then clue_tile (mines_around st bl p) (tile_of bl p) else tile_of bl q)"
    by blast
  have mc: "mine_cells st bl1 = mine_cells st bl"
    using one(3) by (rule place_clue_mine_cells)
  then have ma: "mines_around st bl1 q = mines_around st bl q" for q
    by (simp add: mines_around_def)
  from Cons.IH [OF one(2) cs] obtain bl' where
    rest: "foldE (place_clue st) cs bl1 = Inr bl'" "wf_grid st bl'"
      "mine_cells st bl' = mine_cells st bl1"
      "\<forall>q\<in>inside st. tile_of bl' q =
                 (if q \<in> set cs \<and> q \<notin> mine_cells st bl1 \<and> mines_around st bl1 q > 0
                  then clue_tile (mines_around st bl1 q) (tile_of bl1 q) else tile_of bl1 q)"
    by blast
  have "tile_of bl' q =
          (if q \<in> set (p # cs) \<and> q \<notin> mine_cells st bl \<and> mines_around st bl q > 0
           then clue_tile (mines_around st bl q) (tile_of bl q) else tile_of bl q)"
    if q: "q \<in> inside st" for q
    using rest(4) [rule_format, OF q] one(3) [rule_format, OF q]
    by (auto simp: mc ma clue_tile_idem)
  with one(1) rest(1,2,3) mc show ?case by simp
qed

lemma set_all_cells: "set (all_cells st) = inside st"
  by (auto simp: all_cells_def inside_def is_inside_def)

definition neighbours_of :: "cell \<Rightarrow> cell set" where
  "neighbours_of q = block3x3 q - {q}"

lemma mines_around_neighbours:
  assumes "q \<notin> mine_cells st bl"
  shows "mines_around st bl q = int (card (mine_cells st bl \<inter> neighbours_of q))"
proof -
  have "mine_cells st bl \<inter> block3x3 q = mine_cells st bl \<inter> neighbours_of q"
    using assms by (auto simp: neighbours_of_def)
  then show ?thesis by (simp add: mines_around_def)
qed

section \<open>The flood fill (Board.dig)\<close>

text \<open>
  \<open>neighbour_block\<close> is the list of the cells that the two \<open>range\<close> loops of \<open>dig\<close> visit:
  the 3x3 block around \<open>(x, y)\<close> clipped to the board, the cell itself among them.
  \<open>dig_neighbours\<close> is the pair of loops, with the cells still to visit as its argument; it
  reads \<open>self.dug\<close> as the recursive calls before it have left it, and ignores what they
  return.  \<open>ai\<close> is the optional agent, told of every tile dug that is not a mine.  The
  recursion is nested, so its termination is proved from a fact about its own results: no
  call shortens the \<open>dug\<close> list.  Every recursive call of \<open>dig\<close> is on a cell of the board
  that is not in \<open>dug\<close>, and \<open>dig\<close> puts the cell into \<open>dug\<close> before it recurses, so the
  number of cells of the board outside \<open>dug\<close> decreases.
\<close>

definition neighbour_block :: "settings \<Rightarrow> int \<Rightarrow> int \<Rightarrow> cell list" where
  "neighbour_block st x y =
     concat (map (\<lambda>row. map (\<lambda>col. (row, col)) [max 0 (y - 1) ..min (ROWS st - 1) (y + 1)])
               [max 0 (x - 1) ..min (COLS st - 1) (x + 1)])"

function dig ::
    "settings \<Rightarrow> int \<Rightarrow> int \<Rightarrow> Solver option \<Rightarrow> Board \<Rightarrow> error + (bool \<times> Board \<times> Solver option)"
  and dig_neighbours ::
    "settings \<Rightarrow> cell list \<Rightarrow> Solver option \<Rightarrow> Board \<Rightarrow> error + (Board \<times> Solver option)"
where
  "dig st x y ai b =
     (case tile_change (\<lambda>t. t\<lparr>revealed := True\<rparr>) (board_list b) x y of
        Inl e \<Rightarrow> Inl e
      | Inr bl1 \<Rightarrow>
         (case tile_at bl1 x y of
            Inl e \<Rightarrow> Inl e
          | Inr t \<Rightarrow>
             (if tile_type t = ''X'' then
                (case tile_change (\<lambda>t. t\<lparr>tile_image := tile_exploded\<rparr>) bl1 x y of
                   Inl e \<Rightarrow> Inl e
                 | Inr bl2 \<Rightarrow> Inr (False, b\<lparr>board_list := bl2, dug := dug b @ [(x, y)]\<rparr>, ai))
              else if tile_type t = ''C'' then
                Inr (True, b\<lparr>board_list := bl1, dug := dug b @ [(x, y)]\<rparr>,
                     map_option (add_knowledge (x, y) (nearby_mine t)) ai)
              else
                (case dig_neighbours st (neighbour_block st x y)
                        (map_option (add_knowledge (x, y) (nearby_mine t)) ai)
                        (b\<lparr>board_list := bl1, dug := dug b @ [(x, y)]\<rparr>) of
                   Inl e \<Rightarrow> Inl e
                 | Inr r \<Rightarrow> Inr (True, fst r, snd r)))))"
| "dig_neighbours st [] ai b = Inr (b, ai)"
| "dig_neighbours st (p # ps) ai b =
     (if p \<notin> set (dug b) then
        (case dig st (fst p) (snd p) ai b of
           Inl e \<Rightarrow> Inl e
         | Inr r \<Rightarrow> dig_neighbours st ps (snd (snd r)) (fst (snd r)))
      else dig_neighbours st ps ai b)"
  by pat_completeness auto

lemma dig_dug_mono:
  "dig_dig_neighbours_dom (Inl (st, x, y, ai, b)) \<Longrightarrow>
     dig st x y ai b = Inr r \<Longrightarrow> set (dug b) \<subseteq> set (dug (fst (snd r)))"
  "dig_dig_neighbours_dom (Inr (st, ps, ai, b)) \<Longrightarrow>
     dig_neighbours st ps ai b = Inr r' \<Longrightarrow> set (dug b) \<subseteq> set (dug (fst r'))"
proof (induction st x y ai b and st ps ai b arbitrary: r and r' rule: dig_dig_neighbours.pinduct)
  case (1 st x y ai b)
  from "1.prems" show ?case
    apply (simp add: dig.psimps [OF "1.hyps"(1)] split: sum.splits if_splits)
    using "1.IH" by fastforce+
next
  case (2 st ai b)
  then show ?case by (auto simp: dig_neighbours.psimps)
next
  case (3 st p ps ai b)
  show ?case
  proof (cases "p \<notin> set (dug b)")
    case True
    with "3.prems" obtain r1 where
      r1: "dig st (fst p) (snd p) ai b = Inr r1"
      and rest: "dig_neighbours st ps (snd (snd r1)) (fst (snd r1)) = Inr r'"
      by (auto simp: dig_neighbours.psimps(2) [OF "3.hyps"(1)] split: sum.splits)
    from "3.IH"(1) [OF True r1] "3.IH"(2) [OF True r1 rest] show ?thesis by blast
  next
    case False
    with "3.prems" have "dig_neighbours st ps ai b = Inr r'"
      by (simp add: dig_neighbours.psimps(2) [OF "3.hyps"(1)])
    from "3.IH"(3) [OF _ this] False show ?thesis by simp
  qed
qed


lemma set_neighbour_block:
  "set (neighbour_block st x y) = inside st \<inter> block3x3 (x, y)"
proof -
  have "set (neighbour_block st x y)
          = {max 0 (x - 1) .. min (COLS st - 1) (x + 1)} \<times> {max 0 (y - 1) .. min (ROWS st - 1) (y + 1)}"
    by (auto simp: neighbour_block_def)
  also have "\<dots> = inside st \<inter> block3x3 (x, y)"
    by (auto simp: inside_def is_inside_def block3x3_def)
  finally show ?thesis .
qed

definition dig_measure ::
  "settings \<times> int \<times> int \<times> Solver option \<times> Board + settings \<times> cell list \<times> Solver option \<times> Board
     \<Rightarrow> nat \<times> nat" where
  "dig_measure v =
     (case v of
        Inl (st, x, y, ai, b) \<Rightarrow>
          (card (inside st - set (dug b) - {(x, y)}), Suc (length (neighbour_block st x y)))
      | Inr (st, ps, ai, b) \<Rightarrow> (card ((inside st \<union> set ps) - set (dug b)), length ps))"

lemma dig_measure_enter:
  "card ((inside st \<union> set (neighbour_block st x y)) - set (dug b @ [(x, y)]))
     = card (inside st - set (dug b) - {(x, y)})"
proof -
  have "(inside st \<union> set (neighbour_block st x y)) - set (dug b @ [(x, y)])
          = inside st - set (dug b) - {(x, y)}"
    by (auto simp: set_neighbour_block)
  then show ?thesis by simp
qed

lemma dig_measure_call:
  assumes "p \<notin> set (dug b)"
  shows "card (inside st - set (dug b) - {p}) < card ((inside st \<union> set (p # ps)) - set (dug b))"
proof (rule psubset_card_mono)
  show "finite ((inside st \<union> set (p # ps)) - set (dug b))"
    by (simp add: finite_inside)
  show "inside st - set (dug b) - {p} \<subset> (inside st \<union> set (p # ps)) - set (dug b)"
    using assms by auto
qed

lemma dig_measure_next:
  assumes "set (dug b) \<subseteq> set (dug b')"
  shows "card ((inside st \<union> set ps) - set (dug b')) \<le> card ((inside st \<union> set (p # ps)) - set (dug b))"
proof (rule card_mono)
  show "finite ((inside st \<union> set (p # ps)) - set (dug b))"
    by (simp add: finite_inside)
  show "(inside st \<union> set ps) - set (dug b') \<subseteq> (inside st \<union> set (p # ps)) - set (dug b)"
    using assms by auto
qed

termination dig
proof (relation "inv_image (less_than <*lex*> less_than) dig_measure")
  show "wf (inv_image (less_than <*lex*> less_than) dig_measure)"
    by (intro wf_inv_image wf_lex_prod wf_less_than)
next
  fix st x y ai b bl1 t
  show "(Inr (st, neighbour_block st x y, map_option (add_knowledge (x, y) (nearby_mine t)) ai,
             b\<lparr>board_list := bl1, dug := dug b @ [(x, y)]\<rparr>),
         Inl (st, x, y, ai, b)) \<in> inv_image (less_than <*lex*> less_than) dig_measure"
    using dig_measure_enter [of st x y b] by (simp add: dig_measure_def)
next
  fix st :: settings and p :: cell and ps :: "cell list" and ai :: "Solver option" and b :: Board
  assume "p \<notin> set (dug b)"
  then show "(Inl (st, fst p, snd p, ai, b), Inr (st, p # ps, ai, b))
           \<in> inv_image (less_than <*lex*> less_than) dig_measure"
    using dig_measure_call [of p b st ps] by (simp add: dig_measure_def)
next
  fix st :: settings and p :: cell and ps :: "cell list" and ai :: "Solver option" and b :: Board
    and r :: "bool \<times> Board \<times> Solver option"
  assume "p \<notin> set (dug b)" and "dig st (fst p) (snd p) ai b = Inr r"
    and "dig_dig_neighbours_dom (Inl (st, fst p, snd p, ai, b))"
  then have "set (dug b) \<subseteq> set (dug (fst (snd r)))" using dig_dug_mono(1) by blast
  from dig_measure_next [OF this, of st ps p]
  show "(Inr (st, ps, snd (snd r), fst (snd r)), Inr (st, p # ps, ai, b))
           \<in> inv_image (less_than <*lex*> less_than) dig_measure"
    by (auto simp: dig_measure_def)
next
  fix st :: settings and p :: cell and ps :: "cell list" and ai :: "Solver option" and b :: Board
  from dig_measure_next [of b b st ps p]
  show "(Inr (st, ps, ai, b), Inr (st, p # ps, ai, b))
           \<in> inv_image (less_than <*lex*> less_than) dig_measure"
    by (auto simp: dig_measure_def)
qed

text \<open>
  What the flood fill does.  \<open>zero_tile\<close> is the test of the last branch of \<open>dig\<close>: the tile is
  neither a mine nor a clue.  \<open>dug_tile\<close> is what one call of \<open>dig\<close> does to the tile it is
  called on.  \<open>fill st bl p\<close> is the set of the cells that the recursion can reach from \<open>p\<close>:
  \<open>p\<close> itself, and every cell of the clipped block of a reached cell whose tile is a
  \<open>zero_tile\<close>.  \<open>dig_step st b b' D\<close> relates the board before and after a call: \<open>D\<close> is the
  set of the cells dug by the call, the \<open>dug\<close> list gains exactly these, their tiles are
  changed by \<open>dug_tile\<close> and every other tile is kept.  \<open>closed_under\<close> says that every
  \<open>zero_tile\<close> dug by the call has its whole clipped block in the \<open>dug\<close> list on return.
\<close>

definition zero_tile :: "Tile list list \<Rightarrow> cell \<Rightarrow> bool" where
  "zero_tile bl p = (tile_type (tile_of bl p) \<noteq> ''X'' \<and> tile_type (tile_of bl p) \<noteq> ''C'')"

definition dug_tile :: "Tile \<Rightarrow> Tile" where
  "dug_tile t =
     (if tile_type t = ''X'' then t\<lparr>tile_image := tile_exploded, revealed := True\<rparr>
      else t\<lparr>revealed := True\<rparr>)"

inductive_set fill :: "settings \<Rightarrow> Tile list list \<Rightarrow> cell \<Rightarrow> cell set"
  for st :: settings and bl :: "Tile list list" and p :: cell
where
  fill_start: "p \<in> fill st bl p"
| fill_step: "q \<in> fill st bl p \<Longrightarrow> q \<in> inside st \<Longrightarrow> zero_tile bl q \<Longrightarrow> r \<in> inside st
                \<Longrightarrow> r \<in> block3x3 q \<Longrightarrow> r \<in> fill st bl p"

definition dig_step :: "settings \<Rightarrow> Board \<Rightarrow> Board \<Rightarrow> cell set \<Rightarrow> bool" where
  "dig_step st b b' D =
     (wf_grid st (board_list b') \<and> set (dug b') = set (dug b) \<union> D \<and> D \<subseteq> inside st
      \<and> first_click b' = first_click b
      \<and> (\<forall>q\<in>inside st. tile_of (board_list b') q =
             (if q \<in> D then dug_tile (tile_of (board_list b) q) else tile_of (board_list b) q)))"

definition closed_under :: "settings \<Rightarrow> Tile list list \<Rightarrow> cell set \<Rightarrow> Board \<Rightarrow> bool" where
  "closed_under st bl D b' = (\<forall>q\<in>D. zero_tile bl q \<longrightarrow> inside st \<inter> block3x3 q \<subseteq> set (dug b'))"

lemma dug_tile_type [simp]: "tile_type (dug_tile t) = tile_type t"
  by (simp add: dug_tile_def)

lemma dug_tile_idem [simp]: "dug_tile (dug_tile t) = dug_tile t"
  by (simp add: dug_tile_def)

lemma dig_step_refl: "wf_grid st (board_list b) \<Longrightarrow> dig_step st b b {}"
  by (simp add: dig_step_def)

lemma dig_step_trans:
  assumes "dig_step st b b1 D1" and "dig_step st b1 b2 D2"
  shows "dig_step st b b2 (D1 \<union> D2)"
  using assms unfolding dig_step_def by (auto simp: Un_assoc)

lemma dig_step_types:
  assumes "dig_step st b b' D" and "q \<in> inside st"
  shows "tile_type (tile_of (board_list b') q) = tile_type (tile_of (board_list b) q)"
  using assms unfolding dig_step_def by auto

lemma dig_step_zero:
  assumes "dig_step st b b' D" and "q \<in> inside st"
  shows "zero_tile (board_list b') q = zero_tile (board_list b) q"
  using dig_step_types [OF assms] by (simp add: zero_tile_def)

lemma fill_mono_grid:
  assumes "\<And>q. q \<in> inside st \<Longrightarrow> zero_tile bl q \<Longrightarrow> zero_tile bl' q"
    and "r \<in> fill st bl p"
  shows "r \<in> fill st bl' p"
  using assms(2)
proof (induction rule: fill.induct)
  case fill_start
  show ?case by (rule fill.fill_start)
next
  case (fill_step q r)
  from fill_step.IH fill_step.hyps(2) assms(1) [OF fill_step.hyps(2,3)] fill_step.hyps(4,5)
  show ?case by (rule fill.fill_step)
qed

lemma fill_cong_grid:
  assumes "\<And>q. q \<in> inside st \<Longrightarrow> zero_tile bl' q = zero_tile bl q"
  shows "fill st bl' p = fill st bl p"
proof (intro set_eqI iffI)
  fix r assume "r \<in> fill st bl' p"
  then show "r \<in> fill st bl p" by (rule fill_mono_grid [rotated]) (simp add: assms)
next
  fix r assume "r \<in> fill st bl p"
  then show "r \<in> fill st bl' p" by (rule fill_mono_grid [rotated]) (simp add: assms)
qed

lemma fill_trans:
  assumes "q \<in> fill st bl p" and "r \<in> fill st bl q"
  shows "r \<in> fill st bl p"
  using assms(2)
proof (induction rule: fill.induct)
  case fill_start
  show ?case by (rule assms(1))
next
  case (fill_step q' r)
  from fill_step.IH fill_step.hyps(2,3,4,5) show ?case by (rule fill.fill_step)
qed

lemma fill_neighbour:
  assumes "p \<in> inside st" and "zero_tile bl p" and "r \<in> inside st" and "r \<in> block3x3 p"
  shows "r \<in> fill st bl p"
  using fill.fill_start assms by (rule fill.fill_step)

lemma closed_under_mono:
  assumes "closed_under st bl D b1" and "set (dug b1) \<subseteq> set (dug b2)"
  shows "closed_under st bl D b2"
  using assms unfolding closed_under_def by blast

lemma dig_step_first:
  assumes wf: "wf_grid st (board_list b)" and p: "p \<in> inside st"
    and bl': "wf_grid st bl'"
    and upd: "\<forall>q\<in>inside st. tile_of bl' q = (if q = p then dug_tile (tile_of (board_list b) p) else tile_of (board_list b) q)"
  shows "dig_step st b (b\<lparr>board_list := bl', dug := dug b @ [p]\<rparr>) {p}"
  using assms unfolding dig_step_def by auto

lemma dig_invariant:
  "(wf_grid st (board_list b) \<longrightarrow> (x, y) \<in> inside st \<longrightarrow>
      (\<exists>b' ai' D. dig st x y ai b
                    = Inr (tile_type (tile_of (board_list b) (x, y)) \<noteq> ''X'', b', ai')
         \<and> dig_step st b b' D \<and> (x, y) \<in> D \<and> D \<subseteq> fill st (board_list b) (x, y)
         \<and> D \<inter> set (dug b) \<subseteq> {(x, y)} \<and> closed_under st (board_list b) D b'))"
  "(wf_grid st (board_list b) \<longrightarrow> set ps \<subseteq> inside st \<longrightarrow>
      (\<exists>b' ai' D. dig_neighbours st ps ai b = Inr (b', ai')
         \<and> dig_step st b b' D \<and> set ps \<subseteq> set (dug b')
         \<and> D \<subseteq> (\<Union>p\<in>set ps. fill st (board_list b) p)
         \<and> D \<inter> set (dug b) = {} \<and> closed_under st (board_list b) D b'))"
proof (induction st x y ai b and st ps ai b rule: dig_dig_neighbours.induct)
  case (1 st x y ai b)
  show ?case
  proof (intro impI)
    assume wf: "wf_grid st (board_list b)" and p: "(x, y) \<in> inside st"
    let ?bl = "board_list b"
    let ?t = "tile_of ?bl (x, y)"
    from tile_change_inside [OF wf p, of "\<lambda>t. t\<lparr>revealed := True\<rparr>"] obtain bl1 where
      c1: "tile_change (\<lambda>t. t\<lparr>revealed := True\<rparr>) ?bl x y = Inr bl1" and wf1: "wf_grid st bl1"
      and u1: "\<forall>q\<in>inside st. tile_of bl1 q = (if q = (x, y) then ?t\<lparr>revealed := True\<rparr> else tile_of ?bl q)"
      by auto
    from tile_at_inside [OF wf1 p] u1 p
    have a1: "tile_at bl1 x y = Inr (?t\<lparr>revealed := True\<rparr>)" by simp
    let ?b1 = "b\<lparr>board_list := bl1, dug := dug b @ [(x, y)]\<rparr>"
    consider (mine) "tile_type ?t = ''X''" | (clue) "tile_type ?t \<noteq> ''X''" "tile_type ?t = ''C''"
      | (zero) "tile_type ?t \<noteq> ''X''" "tile_type ?t \<noteq> ''C''" by blast
    then show "\<exists>b' ai' D. dig st x y ai b = Inr (tile_type ?t \<noteq> ''X'', b', ai')
         \<and> dig_step st b b' D \<and> (x, y) \<in> D \<and> D \<subseteq> fill st ?bl (x, y)
         \<and> D \<inter> set (dug b) \<subseteq> {(x, y)} \<and> closed_under st ?bl D b'"
    proof cases
      case mine
      from tile_change_inside [OF wf1 p, of "\<lambda>t. t\<lparr>tile_image := tile_exploded\<rparr>"] obtain bl2 where
        c2: "tile_change (\<lambda>t. t\<lparr>tile_image := tile_exploded\<rparr>) bl1 x y = Inr bl2" and wf2: "wf_grid st bl2"
        and u2: "\<forall>q\<in>inside st. tile_of bl2 q = (if q = (x, y) then (tile_of bl1 (x, y))\<lparr>tile_image := tile_exploded\<rparr> else tile_of bl1 q)"
        by auto
      let ?b2 = "b\<lparr>board_list := bl2, dug := dug b @ [(x, y)]\<rparr>"
      have eq: "dig st x y ai b = Inr (False, ?b2, ai)"
        using c1 a1 c2 mine by simp
      have "\<forall>q\<in>inside st. tile_of bl2 q = (if q = (x, y) then dug_tile ?t else tile_of ?bl q)"
        using u1 u2 p mine by (simp add: dug_tile_def)
      from dig_step_first [OF wf p wf2 this]
      have st: "dig_step st b ?b2 {(x, y)}" .
      have cl: "closed_under st ?bl {(x, y)} ?b2"
        using mine by (simp add: closed_under_def zero_tile_def)
      show ?thesis
        using eq st cl mine
        by (intro exI [of _ ?b2] exI [of _ ai] exI [of _ "{(x, y)}"]) (simp add: fill.fill_start)
    next
      case clue
      have eq: "dig st x y ai b = Inr (True, ?b1, map_option (add_knowledge (x, y) (nearby_mine ?t)) ai)"
        using c1 a1 clue by simp
      have "\<forall>q\<in>inside st. tile_of bl1 q = (if q = (x, y) then dug_tile ?t else tile_of ?bl q)"
        using u1 clue by (simp add: dug_tile_def)
      from dig_step_first [OF wf p wf1 this]
      have st: "dig_step st b ?b1 {(x, y)}" .
      have cl: "closed_under st ?bl {(x, y)} ?b1"
        using clue by (simp add: closed_under_def zero_tile_def)
      show ?thesis
        using eq st cl clue
        by (intro exI [of _ ?b1] exI [of _ "map_option (add_knowledge (x, y) (nearby_mine ?t)) ai"]
              exI [of _ "{(x, y)}"]) (simp add: fill.fill_start)
    next
      case zero
      let ?ai1 = "map_option (add_knowledge (x, y) (nearby_mine ?t)) ai"
      have u1': "\<forall>q\<in>inside st. tile_of bl1 q = (if q = (x, y) then dug_tile ?t else tile_of ?bl q)"
        using u1 zero by (simp add: dug_tile_def)
      from dig_step_first [OF wf p wf1 this]
      have st1: "dig_step st b ?b1 {(x, y)}" .
      have z: "zero_tile ?bl (x, y)" using zero by (simp add: zero_tile_def)
      have nb: "set (neighbour_block st x y) \<subseteq> inside st" by (simp add: set_neighbour_block)
      have "tile_type (?t\<lparr>revealed := True\<rparr>) \<noteq> ''X''" "tile_type (?t\<lparr>revealed := True\<rparr>) \<noteq> ''C''"
        using zero by simp_all
      from "1.IH" [OF c1 a1 this] wf1 nb
      obtain b2 ai2 D2 where
        r: "dig_neighbours st (neighbour_block st x y)
              (map_option (add_knowledge (x, y) (nearby_mine (?t\<lparr>revealed := True\<rparr>))) ai) ?b1 = Inr (b2, ai2)"
        and st2: "dig_step st ?b1 b2 D2"
        and all: "set (neighbour_block st x y) \<subseteq> set (dug b2)"
        and sub: "D2 \<subseteq> (\<Union>p\<in>set (neighbour_block st x y). fill st bl1 p)"
        and new: "D2 \<inter> set (dug ?b1) = {}"
        and cl2: "closed_under st bl1 D2 b2"
        by auto
      have eq: "dig st x y ai b = Inr (True, b2, ai2)"
        using c1 a1 zero r by simp
      have zeq: "zero_tile bl1 q = zero_tile ?bl q" if "q \<in> inside st" for q
        using dig_step_zero [OF st1 that] by simp
      have feq: "fill st bl1 q = fill st ?bl q" for q
        by (rule fill_cong_grid) (rule zeq)
      from dig_step_trans [OF st1 st2] have st: "dig_step st b b2 (insert (x, y) D2)" by simp
      have D2in: "D2 \<subseteq> inside st" using st2 by (simp add: dig_step_def)
      have sub': "insert (x, y) D2 \<subseteq> fill st ?bl (x, y)"
      proof -
        have "fill st ?bl q \<subseteq> fill st ?bl (x, y)" if "q \<in> set (neighbour_block st x y)" for q
        proof -
          from that have "q \<in> inside st" "q \<in> block3x3 (x, y)" by (simp_all add: set_neighbour_block)
          from fill_neighbour [OF p z this] have "q \<in> fill st ?bl (x, y)" .
          then show ?thesis using fill_trans by blast
        qed
        with sub have "D2 \<subseteq> fill st ?bl (x, y)" unfolding feq by blast
        then show ?thesis by (simp add: fill.fill_start)
      qed
      have new': "insert (x, y) D2 \<inter> set (dug b) \<subseteq> {(x, y)}"
        using new by auto
      have cl: "closed_under st ?bl (insert (x, y) D2) b2"
        unfolding closed_under_def
      proof (intro ballI impI)
        fix q assume q: "q \<in> insert (x, y) D2" and zq: "zero_tile ?bl q"
        show "inside st \<inter> block3x3 q \<subseteq> set (dug b2)"
        proof (cases "q = (x, y)")
          case True
          with all show ?thesis by (simp add: set_neighbour_block)
        next
          case False
          with q have qD: "q \<in> D2" by simp
          with D2in have "q \<in> inside st" by blast
          with zq have "zero_tile bl1 q" by (simp add: zeq)
          with cl2 qD show ?thesis by (simp add: closed_under_def)
        qed
      qed
      show ?thesis
        using eq st sub' new' cl zero
        by (intro exI [of _ b2] exI [of _ ai2] exI [of _ "insert (x, y) D2"]) simp
    qed
  qed
next
  case (2 st ai b)
  show ?case
    by (intro impI exI [of _ b] exI [of _ ai] exI [of _ "{}"])
       (simp add: dig_step_refl closed_under_def)
next
  case (3 st p ps ai b)
  show ?case
  proof (intro impI)
    assume wf: "wf_grid st (board_list b)" and pps: "set (p # ps) \<subseteq> inside st"
    then have p: "(fst p, snd p) \<in> inside st" and ps: "set ps \<subseteq> inside st" by simp_all
    let ?bl = "board_list b"
    show "\<exists>b' ai' D. dig_neighbours st (p # ps) ai b = Inr (b', ai')
         \<and> dig_step st b b' D \<and> set (p # ps) \<subseteq> set (dug b')
         \<and> D \<subseteq> (\<Union>p\<in>set (p # ps). fill st ?bl p)
         \<and> D \<inter> set (dug b) = {} \<and> closed_under st ?bl D b'"
    proof (cases "p \<in> set (dug b)")
      case True
      from "3.IH"(3) True wf ps obtain b' ai' D where
        r: "dig_neighbours st ps ai b = Inr (b', ai')"
        and st: "dig_step st b b' D" and all: "set ps \<subseteq> set (dug b')"
        and sub: "D \<subseteq> (\<Union>p\<in>set ps. fill st ?bl p)"
        and new: "D \<inter> set (dug b) = {}" and cl: "closed_under st ?bl D b'"
        by auto
      have eq: "dig_neighbours st (p # ps) ai b = Inr (b', ai')" using True r by simp
      have "p \<in> set (dug b')" using st True by (simp add: dig_step_def)
      with eq st all sub new cl show ?thesis
        by (intro exI [of _ b'] exI [of _ ai'] exI [of _ D]) auto
    next
      case False
      from "3.IH"(1) [OF False] wf p obtain ok b1 ai1 D1 where
        r1: "dig st (fst p) (snd p) ai b = Inr (ok, b1, ai1)"
        and st1: "dig_step st b b1 D1" and pin: "p \<in> D1"
        and sub1: "D1 \<subseteq> fill st ?bl p"
        and new1: "D1 \<inter> set (dug b) \<subseteq> {p}" and cl1: "closed_under st ?bl D1 b1"
        by auto
      have wf1: "wf_grid st (board_list b1)" using st1 by (simp add: dig_step_def)
      from "3.IH"(2) [OF False r1] wf1 ps obtain b2 ai2 D2 where
        r2: "dig_neighbours st ps ai1 b1 = Inr (b2, ai2)"
        and st2: "dig_step st b1 b2 D2" and all: "set ps \<subseteq> set (dug b2)"
        and sub2: "D2 \<subseteq> (\<Union>p\<in>set ps. fill st (board_list b1) p)"
        and new2: "D2 \<inter> set (dug b1) = {}" and cl2: "closed_under st (board_list b1) D2 b2"
        by auto
      have eq: "dig_neighbours st (p # ps) ai b = Inr (b2, ai2)" using False r1 r2 by simp
      have zeq: "zero_tile (board_list b1) q = zero_tile ?bl q" if "q \<in> inside st" for q
        using dig_step_zero [OF st1 that] .
      have feq: "fill st (board_list b1) q = fill st ?bl q" for q
        by (rule fill_cong_grid) (rule zeq)
      from dig_step_trans [OF st1 st2] have st: "dig_step st b b2 (D1 \<union> D2)" .
      have d1: "set (dug b1) = set (dug b) \<union> D1" using st1 by (simp add: dig_step_def)
      have d2: "set (dug b2) = set (dug b1) \<union> D2" using st2 by (simp add: dig_step_def)
      have D2in: "D2 \<subseteq> inside st" using st2 by (simp add: dig_step_def)
      have all': "set (p # ps) \<subseteq> set (dug b2)" using all pin d1 d2 by auto
      have sub: "D1 \<union> D2 \<subseteq> (\<Union>p\<in>set (p # ps). fill st ?bl p)"
        using sub1 sub2 unfolding feq by auto
      have new: "(D1 \<union> D2) \<inter> set (dug b) = {}"
        using new1 new2 False d1 by auto
      have cl1': "closed_under st ?bl D1 b2"
        using cl1 by (rule closed_under_mono) (simp add: d2)
      have cl2': "closed_under st ?bl D2 b2"
        using cl2 D2in zeq unfolding closed_under_def by blast
      have cl: "closed_under st ?bl (D1 \<union> D2) b2"
        using cl1' cl2' unfolding closed_under_def by blast
      show ?thesis
        using eq st all' sub new cl
        by (intro exI [of _ b2] exI [of _ ai2] exI [of _ "D1 \<union> D2"]) simp
    qed
  qed
qed

text \<open>
  The words of the specification.  \<open>zero_region st bl p\<close> is the connected region of \<open>p\<close>:
  the cells reached from \<open>p\<close> through neighbouring tiles that are all \<open>zero_tile\<close>s.
  \<open>clue_ring\<close> is the ring of the clue tiles that have a neighbour in the region.
  \<open>clues_placed\<close> is what \<open>place_clues\<close> leaves: a tile that is not a mine is a clue exactly
  when a neighbour on the board is a mine.  \<open>dug_closed\<close> is what the calls of \<open>dig\<close> leave
  of the \<open>dug\<close> list: its cells are on the board and revealed, and a \<open>zero_tile\<close> in it has
  its clipped block in it.  \<open>placed_board\<close> and \<open>dig_preserves\<close> show that the board after
  \<open>place_mines\<close> and \<open>place_clues\<close> has these properties and that every call of \<open>dig\<close> on a
  cell of the board keeps them.
\<close>

inductive_set zero_region :: "settings \<Rightarrow> Tile list list \<Rightarrow> cell \<Rightarrow> cell set"
  for st :: settings and bl :: "Tile list list" and p :: cell
where
  region_start: "p \<in> zero_region st bl p"
| region_step: "q \<in> zero_region st bl p \<Longrightarrow> r \<in> inside st \<Longrightarrow> r \<in> neighbours_of q
                  \<Longrightarrow> zero_tile bl r \<Longrightarrow> r \<in> zero_region st bl p"

definition clue_ring :: "settings \<Rightarrow> Tile list list \<Rightarrow> cell \<Rightarrow> cell set" where
  "clue_ring st bl p =
     {r \<in> inside st. tile_type (tile_of bl r) = ''C'' \<and> (\<exists>q\<in>zero_region st bl p. r \<in> neighbours_of q)}"

definition clues_placed :: "settings \<Rightarrow> Tile list list \<Rightarrow> bool" where
  "clues_placed st bl =
     (\<forall>q\<in>inside st. q \<notin> mine_cells st bl \<longrightarrow>
        (tile_type (tile_of bl q) = ''C'') = (mine_cells st bl \<inter> neighbours_of q \<noteq> {}))"

definition dug_closed :: "settings \<Rightarrow> Board \<Rightarrow> bool" where
  "dug_closed st b =
     (\<forall>q\<in>set (dug b). q \<in> inside st \<and> revealed (tile_of (board_list b) q)
        \<and> (zero_tile (board_list b) q \<longrightarrow> inside st \<inter> block3x3 q \<subseteq> set (dug b)))"

lemma zero_region_members:
  assumes "p \<in> inside st" and "zero_tile bl p" and "q \<in> zero_region st bl p"
  shows "q \<in> inside st \<and> zero_tile bl q"
  using assms(3) by (induction rule: zero_region.induct) (simp_all add: assms(1,2))

lemma fill_region_ring:
  assumes p: "p \<in> inside st" and z: "zero_tile bl p" and clues: "clues_placed st bl"
  shows "fill st bl p = zero_region st bl p \<union> clue_ring st bl p"
proof (intro set_eqI iffI)
  fix r assume "r \<in> fill st bl p"
  then show "r \<in> zero_region st bl p \<union> clue_ring st bl p"
  proof (induction rule: fill.induct)
    case fill_start
    show ?case by (simp add: zero_region.region_start)
  next
    case (fill_step q r)
    from fill_step.hyps(3) have "tile_type (tile_of bl q) \<noteq> ''C''" by (simp add: zero_tile_def)
    with fill_step.IH have qr: "q \<in> zero_region st bl p" by (simp add: clue_ring_def)
    show ?case
    proof (cases "r = q")
      case True
      with qr show ?thesis by simp
    next
      case False
      with fill_step.hyps(5) have nb: "r \<in> neighbours_of q" by (simp add: neighbours_of_def)
      from fill_step.hyps(2,3) have "q \<notin> mine_cells st bl" "tile_type (tile_of bl q) \<noteq> ''C''"
        by (simp_all add: zero_tile_def mine_cells_def)
      with clues fill_step.hyps(2) have "mine_cells st bl \<inter> neighbours_of q = {}"
        unfolding clues_placed_def by blast
      with nb fill_step.hyps(4) have nm: "tile_type (tile_of bl r) \<noteq> ''X''"
        by (auto simp: mine_cells_def)
      show ?thesis
      proof (cases "tile_type (tile_of bl r) = ''C''")
        case True
        with fill_step.hyps(4) qr nb have "r \<in> clue_ring st bl p" unfolding clue_ring_def by blast
        then show ?thesis by simp
      next
        case False
        with nm have "zero_tile bl r" by (simp add: zero_tile_def)
        with qr fill_step.hyps(4) nb have "r \<in> zero_region st bl p" by (rule zero_region.region_step)
        then show ?thesis by simp
      qed
    qed
  qed
next
  fix r assume r: "r \<in> zero_region st bl p \<union> clue_ring st bl p"
  have reg: "q \<in> fill st bl p" if "q \<in> zero_region st bl p" for q
    using that
  proof (induction rule: zero_region.induct)
    case region_start
    show ?case by (rule fill.fill_start)
  next
    case (region_step q r)
    from zero_region_members [OF p z region_step.hyps(1)]
    have "q \<in> inside st" "zero_tile bl q" by simp_all
    moreover from region_step.hyps(3) have "r \<in> block3x3 q" by (simp add: neighbours_of_def)
    ultimately show ?case using region_step.IH region_step.hyps(2) by (blast intro: fill.fill_step)
  qed
  show "r \<in> fill st bl p"
  proof (cases "r \<in> zero_region st bl p")
    case True
    then show ?thesis by (rule reg)
  next
    case False
    with r have "r \<in> clue_ring st bl p" by simp
    then obtain q where q: "q \<in> zero_region st bl p" "r \<in> neighbours_of q" "r \<in> inside st"
      unfolding clue_ring_def by blast
    from zero_region_members [OF p z q(1)] have "q \<in> inside st" "zero_tile bl q" by simp_all
    moreover from q(2) have "r \<in> block3x3 q" by (simp add: neighbours_of_def)
    ultimately show ?thesis using reg [OF q(1)] q(3) by (blast intro: fill.fill_step)
  qed
qed

lemma fill_no_mine:
  assumes p: "p \<in> inside st" and z: "zero_tile bl p" and clues: "clues_placed st bl"
    and r: "r \<in> fill st bl p"
  shows "tile_type (tile_of bl r) \<noteq> ''X''"
proof -
  from r have "r \<in> zero_region st bl p \<union> clue_ring st bl p"
    by (simp add: fill_region_ring [OF p z clues])
  then show ?thesis
  proof
    assume "r \<in> zero_region st bl p"
    from zero_region_members [OF p z this] show ?thesis by (simp add: zero_tile_def)
  next
    assume "r \<in> clue_ring st bl p"
    then show ?thesis by (simp add: clue_ring_def)
  qed
qed

lemma dig_preserves:
  assumes wf: "wf_grid st (board_list b)" and clues: "clues_placed st (board_list b)"
    and dc: "dug_closed st b" and p: "(x, y) \<in> inside st"
  shows "\<exists>ok b' ai'. dig st x y ai b = Inr (ok, b', ai') \<and> wf_grid st (board_list b')
           \<and> clues_placed st (board_list b') \<and> dug_closed st b'"
proof -
  from dig_invariant(1) [of st b x y ai] wf p obtain b' ai' D where
    eq: "dig st x y ai b = Inr (tile_type (tile_of (board_list b) (x, y)) \<noteq> ''X'', b', ai')"
    and ds: "dig_step st b b' D" and cl: "closed_under st (board_list b) D b'"
    by blast
  have wf': "wf_grid st (board_list b')" using ds by (simp add: dig_step_def)
  have ty: "tile_type (tile_of (board_list b') q) = tile_type (tile_of (board_list b) q)"
    if "q \<in> inside st" for q
    using dig_step_types [OF ds that] .
  have mc: "mine_cells st (board_list b') = mine_cells st (board_list b)"
    using ty by (auto simp: mine_cells_def)
  have clues': "clues_placed st (board_list b')"
    using clues ty unfolding clues_placed_def mc by simp
  have d: "set (dug b') = set (dug b) \<union> D" and Din: "D \<subseteq> inside st"
    and tiles: "\<forall>q\<in>inside st. tile_of (board_list b') q =
             (if q \<in> D then dug_tile (tile_of (board_list b) q) else tile_of (board_list b) q)"
    using ds by (simp_all add: dig_step_def)
  have dc': "dug_closed st b'"
    unfolding dug_closed_def
  proof (intro ballI conjI impI)
    fix q assume q: "q \<in> set (dug b')"
    show qin: "q \<in> inside st" using q d Din dc by (auto simp: dug_closed_def)
    show "revealed (tile_of (board_list b') q)"
    proof (cases "q \<in> D")
      case True
      with tiles qin show ?thesis by (simp add: dug_tile_def)
    next
      case False
      with q d have "q \<in> set (dug b)" by simp
      with dc have "revealed (tile_of (board_list b) q)" by (simp add: dug_closed_def)
      with tiles qin False show ?thesis by simp
    qed
    assume "zero_tile (board_list b') q"
    then have z: "zero_tile (board_list b) q" using dig_step_zero [OF ds qin] by simp
    show "inside st \<inter> block3x3 q \<subseteq> set (dug b')"
    proof (cases "q \<in> D")
      case True
      with cl z show ?thesis by (simp add: closed_under_def)
    next
      case False
      with q d have "q \<in> set (dug b)" by simp
      with dc z have "inside st \<inter> block3x3 q \<subseteq> set (dug b)" by (simp add: dug_closed_def)
      with d show ?thesis by blast
    qed
  qed
  from eq wf' clues' dc' show ?thesis by blast
qed

lemma placed_board:
  assumes draws: "set draws \<subseteq> inside st"
    and pm: "place_mines st fcx fcy draws (Board_init st) = Some (Inr (b1, draws'))"
    and pc: "place_clues st b1 = Inr b2"
  shows "wf_grid st (board_list b2) \<and> clues_placed st (board_list b2) \<and> dug_closed st b2"
proof -
  let ?bl0 = "board_list (Board_init st)"
  have wf0: "wf_grid st ?bl0" by (rule Board_init_grid)
  from pm obtain rn where rn: "place_n_mines (AMOUNT_MINES st) (fcx, fcy) draws ?bl0 = Some rn"
    by (auto simp: place_mines_def split: option.splits)
  from place_n_mines_result [OF wf0 draws rn] obtain bl1 dr S where
    r: "rn = Inr (bl1, dr)" "wf_grid st bl1" "S \<subseteq> inside st"
      "\<forall>q\<in>inside st. tile_of bl1 q = (if q \<in> S then mine_tile (tile_of ?bl0 q) else tile_of ?bl0 q)"
    by blast
  have b1: "b1 = Board_init st\<lparr>board_list := bl1\<rparr>"
    using pm rn r(1) by (simp add: place_mines_def)
  have ty1: "tile_type (tile_of bl1 q) = (if q \<in> S then ''X'' else ''.'')" if "q \<in> inside st" for q
    using r(4) [rule_format, OF that] Board_init_grid(2) [OF that]
    by (simp add: mine_tile_def Tile_init_def)
  from place_clues_fold [OF r(2), of "all_cells st"] obtain bl2 where
    f: "foldE (place_clue st) (all_cells st) bl1 = Inr bl2" "wf_grid st bl2"
      "mine_cells st bl2 = mine_cells st bl1"
      "\<forall>q\<in>inside st. tile_of bl2 q =
                 (if q \<in> set (all_cells st) \<and> q \<notin> mine_cells st bl1 \<and> mines_around st bl1 q > 0
                  then clue_tile (mines_around st bl1 q) (tile_of bl1 q) else tile_of bl1 q)"
    by (auto simp: set_all_cells)
  have b2: "b2 = b1\<lparr>board_list := bl2\<rparr>"
    using pc f(1) by (simp add: place_clues_def b1)
  have "clues_placed st bl2"
    unfolding clues_placed_def
  proof (intro ballI impI)
    fix q assume q: "q \<in> inside st" and nm: "q \<notin> mine_cells st bl2"
    from nm f(3) have nm1: "q \<notin> mine_cells st bl1" by simp
    with q have notS: "tile_type (tile_of bl1 q) = ''.''"
      using ty1 [OF q] by (auto simp: mine_cells_def split: if_splits)
    have fin: "finite (mine_cells st bl1 \<inter> neighbours_of q)"
      using finite_inside by (rule rev_finite_subset) (auto simp: mine_cells_def)
    have "mines_around st bl1 q > 0 \<longleftrightarrow> mine_cells st bl1 \<inter> neighbours_of q \<noteq> {}"
      using fin by (simp add: mines_around_neighbours [OF nm1] card_gt_0_iff)
    moreover have "tile_type (tile_of bl2 q) = ''C'' \<longleftrightarrow> mines_around st bl1 q > 0"
      using f(4) [rule_format, OF q] nm1 q notS by (simp add: set_all_cells clue_tile_def)
    ultimately show "(tile_type (tile_of bl2 q) = ''C'') = (mine_cells st bl2 \<inter> neighbours_of q \<noteq> {})"
      by (simp add: f(3))
  qed
  moreover have "dug_closed st b2"
    by (simp add: dug_closed_def b2 b1 Board_init_def)
  ultimately show ?thesis using f(2) by (simp add: b2)
qed

lemma revealed_update: "revealed t \<Longrightarrow> t\<lparr>revealed := True\<rparr> = t"
  by simp

section \<open>Results\<close>

subsection \<open>Process entry\<close>

text \<open>
  C8.  Started with a number of command-line arguments other than 0, 2 or 3 (so
  \<open>sys.argv\<close> is the program name followed by that many strings), the entry block does one
  thing only: it prints \<open>InvalidParameterError: Invalid number of parameters\<close>.  Neither
  the menu nor the benchmark is started, and nothing is raised.
\<close>

theorem main_block_invalid_parameters:
  assumes "length args \<noteq> 0" and "length args \<noteq> 2" and "length args \<noteq> 3"
  shows "main_block py_int (prog # args) =
           Inr (call_print ''InvalidParameterError: Invalid number of parameters'')"
  using assms by (simp add: main_block_def)

theorem main_block_invalid_parameters_witness:
  "main_block (\<lambda>s. None) [''main.py'', ''1''] =
     Inr (call_print ''InvalidParameterError: Invalid number of parameters'')
   \<and> main_block (\<lambda>s. None) [''main.py'', ''1'', ''10'', ''2'', ''7'', ''7''] =
     Inr (call_print ''InvalidParameterError: Invalid number of parameters'')"
  using main_block_invalid_parameters [of "[''1'']" "\<lambda>s. None" "''main.py''"]
        main_block_invalid_parameters [of "[''1'', ''10'', ''2'', ''7'', ''7'']" "\<lambda>s. None" "''main.py''"]
  by simp

subsection \<open>Drawing a tile\<close>

text \<open>
  C2 (as stated, refuted).  A tile that is both revealed and flagged is painted with no
  sprite at all: the first branch of \<open>Tile.draw\<close> asks for \<open>not flagged\<close>, and the two other
  branches ask for \<open>not revealed\<close>.
\<close>

theorem Tile_draw_revealed_flagged_counterexample:
  "Tile_draw \<lparr>tile_x = 0, tile_y = 0, tile_image = tile_numbers 0, tile_type = ''C'',
              nearby_mine = 1, revealed = True, flagged = True\<rparr> [] = []"
  by (simp add: Tile_draw_def)

text \<open>
  C2 (amended).  \<open>Tile.draw\<close> paints at most one sprite, at the tile's pixel position: the
  unknown sprite on a tile neither revealed nor flagged, the flag sprite on an unrevealed
  flagged tile, the tile's own sprite on a revealed tile that is not flagged, and nothing on
  a revealed tile that is flagged.
\<close>

theorem Tile_draw_cases:
  "Tile_draw t board_surface =
     board_surface @
       (if revealed t then (if flagged t then [] else [(tile_image t, tile_x t, tile_y t)])
        else if flagged t then [(tile_flag, tile_x t, tile_y t)]
        else [(tile_unknown, tile_x t, tile_y t)])"
  by (simp add: Tile_draw_def blit_def)

subsection \<open>The set-based solver\<close>

lemma remove_null_from_filter:
  "i \<le> length ks \<Longrightarrow>
     remove_null_from i ks = filter (\<lambda>sn. cells sn \<noteq> []) (take i ks) @ drop i ks"
proof (induction i arbitrary: ks)
  case 0
  show ?case by simp
next
  case (Suc i)
  then have i: "i < length ks" by simp
  show ?case
  proof (cases "cells (ks ! i) = []")
    case True
    have len: "i \<le> length (list_del i ks)" using i by (simp add: list_del_def)
    have "remove_null_from (Suc i) ks = remove_null_from i (list_del i ks)"
      using True by simp
    also have "\<dots> = filter (\<lambda>sn. cells sn \<noteq> []) (take i (list_del i ks)) @ drop i (list_del i ks)"
      by (rule Suc.IH [OF len])
    also have "take i (list_del i ks) = take i ks"
      using i by (simp add: list_del_def)
    also have "drop i (list_del i ks) = drop (Suc i) ks"
      using i by (simp add: list_del_def)
    finally show ?thesis
      using True i by (simp add: take_Suc_conv_app_nth)
  next
    case False
    have "remove_null_from (Suc i) ks = remove_null_from i ks"
      using False by simp
    also have "\<dots> = filter (\<lambda>sn. cells sn \<noteq> []) (take i ks) @ drop i ks"
      using i by (intro Suc.IH) simp
    finally show ?thesis
      using False i by (simp add: take_Suc_conv_app_nth Cons_nth_drop_Suc)
  qed
qed

lemma knowledge_remove_null_sentence:
  "knowledge (remove_null_sentence s) = filter (\<lambda>sn. cells sn \<noteq> []) (knowledge s)"
  by (simp add: remove_null_sentence_def remove_null_from_filter)

text \<open>
  C9.  On a \<open>SetBasedSolver\<close> whose \<open>guess_method\<close> is neither 1 nor 2,
  \<open>analyze_knowledge\<close> raises nothing and returns the solver it was given with the
  sentences of empty cell set deleted from \<open>knowledge\<close>: the sentences kept are unchanged and
  in their order, and no other field (\<open>mines\<close>, \<open>safes\<close>, \<open>next_uncertain_move\<close>, ...) changes.
\<close>

theorem SetBasedSolver_analyze_knowledge_other_guess_method:
  assumes "solver_class s = SetBasedSolver" and "guess_method s \<noteq> 1" and "guess_method s \<noteq> 2"
  shows "analyze_knowledge s = Inr (s\<lparr>knowledge := filter (\<lambda>sn. cells sn \<noteq> []) (knowledge s)\<rparr>)"
  using assms
  by (simp add: analyze_knowledge_def SetBasedSolver_analyze_knowledge_def Let_def
                remove_null_sentence_def remove_null_from_filter)

definition example_null_sentences :: Solver where
  "example_null_sentences =
     (Solver_init SetBasedSolver 3 3 2 0)
       \<lparr>knowledge := [\<lparr>cells = [], count = 0\<rparr>, \<lparr>cells = [(0, 1), (0, 2)], count = 1\<rparr>,
                      \<lparr>cells = [], count = 1\<rparr>]\<rparr>"

theorem SetBasedSolver_analyze_knowledge_other_guess_method_witness:
  "analyze_knowledge example_null_sentences =
     Inr (example_null_sentences\<lparr>knowledge := [\<lparr>cells = [(0, 1), (0, 2)], count = 1\<rparr>]\<rparr>)"
  using SetBasedSolver_analyze_knowledge_other_guess_method [of example_null_sentences]
  by (simp add: example_null_sentences_def Solver_init_def)

lemma distinct_singleton:
  assumes "distinct xs" and "set xs = {x}"
  shows "xs = [x]"
proof -
  have "length xs = card (set xs)" using assms(1) by (simp add: distinct_card)
  then have "length xs = 1" using assms(2) by simp
  then obtain y where "xs = [y]" by (cases xs) auto
  with assms(2) show ?thesis by simp
qed

text \<open>
  C4.  On a solver whose knowledge is the two sentences \<open>{(0,1),(0,2),(0,3)} = 2\<close> and
  \<open>{(0,2),(0,3),(0,4)} = 1\<close>, in this order and whatever the iteration order of their cell
  sets, \<open>add_intersection_sentence\<close> adds \<open>(0,1)\<close> to the mines and \<open>(0,4)\<close> to the safes, and
  leaves a knowledge list of one sentence: the new one, \<open>{(0,2),(0,3)}\<close> with the count of
  the second (smaller) sentence.  Both original sentences are gone.
\<close>

theorem add_intersection_sentence_example:
  assumes k: "knowledge s = [sa, sb]"
    and a: "set (cells sa) = {(0,1),(0,2),(0,3)}" "distinct (cells sa)" "count sa = 2"
    and b: "set (cells sb) = {(0,2),(0,3),(0,4)}" "distinct (cells sb)" "count sb = 1"
  shows "set (mines (add_intersection_sentence s)) = insert (0,1) (set (mines s))
       \<and> set (safes (add_intersection_sentence s)) = insert (0,4) (set (safes s))
       \<and> (\<exists>sn. knowledge (add_intersection_sentence s) = [sn]
               \<and> set (cells sn) = {(0,2),(0,3)} \<and> count sn = count sb)"
proof -
  have sub12: "pyset_difference (cells sa) (cells sb) = [(0,1)]"
    by (rule distinct_singleton) (use a b in \<open>auto simp: pyset_difference_def\<close>)
  have sub21: "pyset_difference (cells sb) (pyset_remove (0,1) (cells sa)) = [(0,4)]"
    by (rule distinct_singleton) (use a b in \<open>auto simp: pyset_difference_def pyset_remove_def\<close>)
  have pair: "intersection_pair 0 1 (s, []) =
      (s\<lparr>mines := pyset_add (0,1) (mines s), safes := pyset_add (0,4) (safes s),
         knowledge :=
           [sa\<lparr>cells := pyset_remove (0,1) (cells sa), count := 1\<rparr>,
            sb\<lparr>cells := pyset_remove (0,4) (cells sb)\<rparr>,
            Sentence_init (pyset_intersection (pyset_remove (0,1) (cells sa))
                             (pyset_remove (0,4) (cells sb))) 1]\<rparr>, [0, 1])"
    using k a b sub12 sub21
    by (simp add: intersection_pair_def Let_def mark_mine_def mark_safe_def
          Sentence_mark_mine_def Sentence_mark_safe_def pyset_add_def pyset_remove_def)
  have res: "add_intersection_sentence s =
      s\<lparr>mines := pyset_add (0,1) (mines s), safes := pyset_add (0,4) (safes s),
        knowledge := [Sentence_init (pyset_intersection (pyset_remove (0,1) (cells sa))
                             (pyset_remove (0,4) (cells sb))) 1]\<rparr>"
  proof -
    have "[0 ..< length (knowledge s) - 1] = [0]" using k by simp
    moreover have "[Suc 0 ..< length (knowledge s)] = [1]" using k by (simp add: upt_rec)
    ultimately have st: "fold intersection_row [0 ..< length (knowledge s) - 1] (s, []) =
        intersection_pair 0 1 (s, [])"
      by (simp add: intersection_row_def)
    show ?thesis
      unfolding add_intersection_sentence_def st pair
      by (simp add: list_del_def)
  qed
  show ?thesis
    unfolding res using a b
    by (auto simp: pyset_add_def Sentence_init_def pyset_intersection_def pyset_remove_def)
qed


definition example_intersection :: Solver where
  "example_intersection =
     (Solver_init SetBasedSolver 5 5 3 1)
       \<lparr>knowledge := [\<lparr>cells = [(0, 1), (0, 2), (0, 3)], count = 2\<rparr>,
                      \<lparr>cells = [(0, 2), (0, 3), (0, 4)], count = 1\<rparr>]\<rparr>"

theorem add_intersection_sentence_example_witness:
  "set (mines (add_intersection_sentence example_intersection)) = {(0, 1)}
   \<and> set (safes (add_intersection_sentence example_intersection)) = {(0, 4)}
   \<and> (\<exists>sn. knowledge (add_intersection_sentence example_intersection) = [sn]
           \<and> set (cells sn) = {(0, 2), (0, 3)} \<and> count sn = 1)"
  using add_intersection_sentence_example [of example_intersection
          "\<lparr>cells = [(0, 1), (0, 2), (0, 3)], count = 2\<rparr>"
          "\<lparr>cells = [(0, 2), (0, 3), (0, 4)], count = 1\<rparr>"]
  by (simp add: example_intersection_def Solver_init_def)

lemma set_index_pairs: "set (index_pairs n) = {(i, j). i < j \<and> j < n}"
proof -
  have "(a, b) \<in> set (index_pairs n)" if "a < b" "b < n" for a b
  proof -
    from that have "a \<in> set [0 ..< n - 1]" "(a, b) \<in> set (map (\<lambda>j. (a, j)) [Suc a ..< n])"
      by auto
    then show ?thesis unfolding index_pairs_def by (auto simp del: set_upt)
  qed
  moreover have "a < b \<and> b < n" if "(a, b) \<in> set (index_pairs n)" for a b
    using that by (auto simp: index_pairs_def)
  ultimately show ?thesis by auto
qed

lemma distinct_index_pairs: "distinct (index_pairs n)"
  unfolding index_pairs_def
proof (rule distinct_concat)
  have "inj_on (\<lambda>i. map (\<lambda>j. (i, j)) [Suc i ..< n]) (set [0 ..< n - 1])"
  proof (rule inj_onI)
    fix x y
    assume x: "x \<in> set [0 ..< n - 1]" and "y \<in> set [0 ..< n - 1]"
      and eq: "map (\<lambda>j. (x, j)) [Suc x ..< n] = map (\<lambda>j. (y, j)) [Suc y ..< n]"
    from x have "(x, Suc x) \<in> set (map (\<lambda>j. (x, j)) [Suc x ..< n])" by auto
    with eq have "(x, Suc x) \<in> set (map (\<lambda>j. (y, j)) [Suc y ..< n])" by simp
    then show "x = y" by auto
  qed
  then show "distinct (map (\<lambda>i. map (\<lambda>j. (i, j)) [Suc i ..< n]) [0 ..< n - 1])"
    by (simp add: distinct_map)
next
  fix ys assume "ys \<in> set (map (\<lambda>i. map (\<lambda>j. (i, j)) [Suc i ..< n]) [0 ..< n - 1])"
  then show "distinct ys" by (auto simp: distinct_map inj_on_def)
next
  fix ys zs
  assume "ys \<in> set (map (\<lambda>i. map (\<lambda>j. (i, j)) [Suc i ..< n]) [0 ..< n - 1])"
     and "zs \<in> set (map (\<lambda>i. map (\<lambda>j. (i, j)) [Suc i ..< n]) [0 ..< n - 1])"
     and "ys \<noteq> zs"
  then show "set ys \<inter> set zs = {}" by auto
qed

lemma complement_pair_length: "length (complement_pair ij ks) = length ks"
  by (simp add: complement_pair_def Let_def)

lemma complement_pair_others:
  "k \<noteq> fst ij \<Longrightarrow> k \<noteq> snd ij \<Longrightarrow> complement_pair ij ks ! k = ks ! k"
  by (simp add: complement_pair_def Let_def)

lemma complement_pair_first:
  assumes "i < j" and "j < length ks"
  shows "complement_pair (i, j) ks ! i =
          (if count (ks ! i) \<ge> count (ks ! j) \<and> set (cells (ks ! j)) \<subseteq> set (cells (ks ! i))
           then (ks ! i)\<lparr>cells := pyset_difference (cells (ks ! i)) (cells (ks ! j)),
                         count := count (ks ! i) - count (ks ! j)\<rparr>
           else ks ! i)"
  using assms by (simp add: complement_pair_def Let_def pyset_issubset_def)

lemma complement_pair_second:
  assumes "i < j" and "j < length ks"
  shows "complement_pair (i, j) ks ! j =
          (if count (complement_pair (i, j) ks ! i) \<le> count (ks ! j)
               \<and> set (cells (complement_pair (i, j) ks ! i)) \<subseteq> set (cells (ks ! j))
           then (ks ! j)\<lparr>cells := pyset_difference (cells (ks ! j)) (cells (complement_pair (i, j) ks ! i)),
                         count := count (ks ! j) - count (complement_pair (i, j) ks ! i)\<rparr>
           else ks ! j)"
  using assms by (auto simp: complement_pair_def Let_def pyset_issubset_def)

lemma add_complement_sentence_example:
  assumes k: "knowledge s = [sa, sb]"
    and a: "set (cells sa) = {(0,1),(0,2),(0,3)}" "count sa = 2"
    and b: "set (cells sb) = {(0,1),(0,2)}" "count sb = 1"
  shows "\<exists>sn. knowledge (add_complement_sentence s) = [sn, sb]
            \<and> set (cells sn) = {(0,3)} \<and> count sn = 1"
proof -
  have "index_pairs (length (knowledge s)) = [(0, 1)]"
    using k by (simp add: index_pairs_def upt_rec)
  then have "knowledge (add_complement_sentence s) = complement_pair (0, 1) [sa, sb]"
    using k by (simp add: add_complement_sentence_def)
  also have "\<dots> = [sa\<lparr>cells := pyset_difference (cells sa) (cells sb), count := 1\<rparr>, sb]"
    using a b by (auto simp: complement_pair_def Let_def pyset_issubset_def pyset_difference_def)
  finally show ?thesis using a b by (auto simp: pyset_difference_def)
qed


text \<open>
  C5.  First, the example: on a solver whose knowledge is \<open>{(0,1),(0,2),(0,3)} = 2\<close> followed
  by \<open>{(0,1),(0,2)} = 1\<close>, \<open>add_complement_sentence\<close> turns the first sentence into
  \<open>{(0,3)} = 1\<close> and leaves the second as it is.  In general, the function visits every pair
  of positions \<open>i < j\<close> once; at a pair, if the sentence at \<open>i\<close> has a count at least that of the
  sentence at \<open>j\<close> and a cell set that includes the other's, it is replaced in place by its
  cells minus the other's with its count reduced by the other's; then the same test and
  replacement are made for the sentence at \<open>j\<close> against the sentence now at \<open>i\<close>; no other
  sentence changes.
\<close>

theorem add_complement_sentence_derivation:
  "(\<forall>(s::Solver) sa sb.
       knowledge s = [sa, sb] \<and> set (cells sa) = {(0,1),(0,2),(0,3)} \<and> count sa = 2
         \<and> set (cells sb) = {(0,1),(0,2)} \<and> count sb = 1
       \<longrightarrow> (\<exists>sn. knowledge (add_complement_sentence s) = [sn, sb]
                 \<and> set (cells sn) = {(0,3)} \<and> count sn = 1))
   \<and> (\<forall>s::Solver. knowledge (add_complement_sentence s) =
          fold complement_pair (index_pairs (length (knowledge s))) (knowledge s))
   \<and> (\<forall>n. set (index_pairs n) = {(i, j). i < j \<and> j < n} \<and> distinct (index_pairs n))
   \<and> (\<forall>ks i j. i < j \<and> j < length ks \<longrightarrow>
         length (complement_pair (i, j) ks) = length ks
         \<and> (\<forall>k. k \<noteq> i \<and> k \<noteq> j \<longrightarrow> complement_pair (i, j) ks ! k = ks ! k)
         \<and> complement_pair (i, j) ks ! i =
             (if count (ks ! i) \<ge> count (ks ! j) \<and> set (cells (ks ! j)) \<subseteq> set (cells (ks ! i))
              then (ks ! i)\<lparr>cells := pyset_difference (cells (ks ! i)) (cells (ks ! j)),
                            count := count (ks ! i) - count (ks ! j)\<rparr>
              else ks ! i)
         \<and> complement_pair (i, j) ks ! j =
             (if count (complement_pair (i, j) ks ! i) \<le> count (ks ! j)
                  \<and> set (cells (complement_pair (i, j) ks ! i)) \<subseteq> set (cells (ks ! j))
              then (ks ! j)\<lparr>cells := pyset_difference (cells (ks ! j))
                                       (cells (complement_pair (i, j) ks ! i)),
                            count := count (ks ! j) - count (complement_pair (i, j) ks ! i)\<rparr>
              else ks ! j))"
proof (intro conjI allI impI)
  fix s :: Solver and sa sb
  assume "knowledge s = [sa, sb] \<and> set (cells sa) = {(0,1),(0,2),(0,3)} \<and> count sa = 2
         \<and> set (cells sb) = {(0,1),(0,2)} \<and> count sb = 1"
  then show "\<exists>sn. knowledge (add_complement_sentence s) = [sn, sb]
                 \<and> set (cells sn) = {(0,3)} \<and> count sn = 1"
    using add_complement_sentence_example [of s sa sb] by blast
next
  fix s :: Solver
  show "knowledge (add_complement_sentence s) =
          fold complement_pair (index_pairs (length (knowledge s))) (knowledge s)"
    by (simp add: add_complement_sentence_def)
next
  fix n show "set (index_pairs n) = {(i, j). i < j \<and> j < n}" by (rule set_index_pairs)
next
  fix n show "distinct (index_pairs n)" by (rule distinct_index_pairs)
next
  fix ks :: "Sentence list" and i j :: nat
  show "length (complement_pair (i, j) ks) = length ks" by (rule complement_pair_length)
next
  fix ks :: "Sentence list" and i j k :: nat
  assume "k \<noteq> i \<and> k \<noteq> j"
  then show "complement_pair (i, j) ks ! k = ks ! k" by (simp add: complement_pair_others)
next
  fix ks :: "Sentence list" and i j :: nat
  assume "i < j \<and> j < length ks"
  then show "complement_pair (i, j) ks ! i =
             (if count (ks ! i) \<ge> count (ks ! j) \<and> set (cells (ks ! j)) \<subseteq> set (cells (ks ! i))
              then (ks ! i)\<lparr>cells := pyset_difference (cells (ks ! i)) (cells (ks ! j)),
                            count := count (ks ! i) - count (ks ! j)\<rparr>
              else ks ! i)"
    using complement_pair_first [of i j ks] by blast
next
  fix ks :: "Sentence list" and i j :: nat
  assume "i < j \<and> j < length ks"
  then show "complement_pair (i, j) ks ! j =
             (if count (complement_pair (i, j) ks ! i) \<le> count (ks ! j)
                  \<and> set (cells (complement_pair (i, j) ks ! i)) \<subseteq> set (cells (ks ! j))
              then (ks ! j)\<lparr>cells := pyset_difference (cells (ks ! j))
                                       (cells (complement_pair (i, j) ks ! i)),
                            count := count (ks ! j) - count (complement_pair (i, j) ks ! i)\<rparr>
              else ks ! j)"
    using complement_pair_second [of i j ks] by blast
qed

definition example_complement :: Solver where
  "example_complement =
     (Solver_init SetBasedSolver 5 5 3 1)
       \<lparr>knowledge := [\<lparr>cells = [(0, 1), (0, 2), (0, 3)], count = 2\<rparr>,
                      \<lparr>cells = [(0, 1), (0, 2)], count = 1\<rparr>]\<rparr>"

theorem add_complement_sentence_derivation_witness:
  "\<exists>sn. knowledge (add_complement_sentence example_complement) =
           [sn, \<lparr>cells = [(0, 1), (0, 2)], count = 1\<rparr>]
        \<and> set (cells sn) = {(0, 3)} \<and> count sn = 1"
  using add_complement_sentence_derivation
          [THEN conjunct1, rule_format, of example_complement
             "\<lparr>cells = [(0, 1), (0, 2), (0, 3)], count = 2\<rparr>"
             "\<lparr>cells = [(0, 1), (0, 2)], count = 1\<rparr>"]
  by (simp add: example_complement_def)

subsection \<open>A board of three cells\<close>

text \<open>
  The examples below are on a board of three columns and one row with its one mine at
  \<open>(2,0)\<close>.  The solver is told that \<open>(1,0)\<close> shows 1 and then that \<open>(0,0)\<close> shows 0.  The
  second call returns before \<open>check_sentence\<close>, so the sentence \<open>{(2,0)} = 1\<close> stays in the
  knowledge list.  \<open>guessed_mine\<close> is the solver after the \<open>make_move\<close> that follows.
\<close>

definition two_reveals :: "solver_class \<Rightarrow> int \<Rightarrow> Solver" where
  "two_reveals cls gm =
     add_knowledge (0, 0) 0 (add_knowledge (1, 0) 1 (Solver_init cls 3 1 1 gm))"

definition after_two_reveals :: "solver_class \<Rightarrow> int \<Rightarrow> Solver" where
  "after_two_reveals cls gm =
     (Solver_init cls 3 1 1 gm)
       \<lparr>moves_made := [(1, 0), (0, 0)], safes := [(1, 0), (0, 0)],
        knowledge := [\<lparr>cells = [(2, 0)], count = 1\<rparr>]\<rparr>"

lemma two_reveals_GC:
  "two_reveals GenerateConfigurationSolver 0 = after_two_reveals GenerateConfigurationSolver 0"
  by code_simp

lemma two_reveals_PT:
  "two_reveals ProbabilityTheorySolver 0 = after_two_reveals ProbabilityTheorySolver 0"
  by code_simp

lemma two_reveals_SB:
  "two_reveals SetBasedSolver 1 = after_two_reveals SetBasedSolver 1"
  by code_simp

definition guessed_mine :: "solver_class \<Rightarrow> int \<Rightarrow> Solver" where
  "guessed_mine cls gm =
     (Solver_init cls 3 1 1 gm)
       \<lparr>moves_made := [(1, 0), (0, 0)], mines := [(2, 0)], safes := [(1, 0), (0, 0)],
        knowledge := [\<lparr>cells = [], count = 0\<rparr>], next_uncertain_move := Some (2, 0),
        guess := 0\<rparr>"

lemma make_move_GC_1:
  "make_move (after_two_reveals GenerateConfigurationSolver 0) =
     Inr ((Some (2, 0), 1), guessed_mine GenerateConfigurationSolver 0)"
  by code_simp

lemma make_move_SB_1:
  "make_move (after_two_reveals SetBasedSolver 1) =
     Inr ((Some (2, 0), 1), guessed_mine SetBasedSolver 1)"
  by code_simp

lemma make_move_SB_2:
  "make_move (guessed_mine SetBasedSolver 1) =
     Inr ((Some (2, 0), 3),
          (guessed_mine SetBasedSolver 1)\<lparr>moves_made := [(1, 0), (0, 0), (2, 0)]\<rparr>)"
  by code_simp

lemma make_move_SB_3:
  "make_move ((guessed_mine SetBasedSolver 1)\<lparr>moves_made := [(1, 0), (0, 0), (2, 0)]\<rparr>) =
     Inr ((Some (2, 0), 1),
          (guessed_mine SetBasedSolver 1)
             \<lparr>moves_made := [(1, 0), (0, 0), (2, 0)], knowledge := [], guess := 1\<rparr>)"
  by code_simp

subsection \<open>The enumeration of configurations\<close>

lemma GC_example_mine:
  "GC_analyze_knowledge (after_two_reveals GenerateConfigurationSolver 0) =
     Inr ((guessed_mine GenerateConfigurationSolver 0)\<lparr>guess := - 1\<rparr>)"
  by code_simp

lemma GC_example_mine_marked:
  "mark_mine (2, 0) (after_two_reveals GenerateConfigurationSolver 0) =
     (guessed_mine GenerateConfigurationSolver 0)\<lparr>next_uncertain_move := None, guess := - 1\<rparr>"
  by code_simp

lemma GC_example_mine_choose:
  "choose_uncertain_move (2, 0) 1 [((2, 0), 1::int)]
     ((guessed_mine GenerateConfigurationSolver 0)\<lparr>next_uncertain_move := None, guess := - 1\<rparr>) =
   Inr ((guessed_mine GenerateConfigurationSolver 0)\<lparr>guess := - 1\<rparr>)"
  by code_simp

definition no_configuration :: Solver where
  "no_configuration =
     (Solver_init GenerateConfigurationSolver 3 1 1 0)
       \<lparr>knowledge := [\<lparr>cells = [(2, 0)], count = 2\<rparr>]\<rparr>"

lemma GC_example_no_configuration:
  "generate_configurations (knowledge no_configuration) = []"
  "GC_analyze_knowledge no_configuration =
     Inr (no_configuration\<lparr>safes := [(2, 0)], knowledge := [\<lparr>cells = [], count = 2\<rparr>]\<rparr>)"
  by code_simp+

definition no_cell :: Solver where
  "no_cell =
     (Solver_init GenerateConfigurationSolver 3 1 1 0)
       \<lparr>knowledge := [\<lparr>cells = [], count = 0\<rparr>]\<rparr>"

lemma GC_example_no_cell: "GC_analyze_knowledge no_cell = Inl ValueError"
  by code_simp

text \<open>
  C3 (as stated, refuted).  On the board of three cells the enumeration finds one
  configuration, \<open>{(2,0)}\<close>: the cell is marked as a mine, a certain cell, and yet the call
  goes on to \<open>choose_uncertain_move\<close> and commits \<open>(2,0)\<close> as the next uncertain move.  With
  the sentence \<open>{(2,0)} = 2\<close> there is no configuration at all, so \<open>(2,0)\<close> is in every one of
  them, and it is marked safe, not as a mine.  With the sentence \<open>{} = 0\<close> alone no cell is
  certain and no uncertain move is committed: \<open>min\<close> raises ValueError.
\<close>

theorem GC_analyze_knowledge_counterexample:
  "GC_analyze_knowledge (after_two_reveals GenerateConfigurationSolver 0)
     = choose_uncertain_move (2, 0) 1 [((2, 0), 1::int)]
         (mark_mine (2, 0) (after_two_reveals GenerateConfigurationSolver 0))
   \<and> GC_analyze_knowledge (after_two_reveals GenerateConfigurationSolver 0)
     = Inr ((after_two_reveals GenerateConfigurationSolver 0)
              \<lparr>mines := [(2, 0)], knowledge := [\<lparr>cells = [], count = 0\<rparr>],
               next_uncertain_move := Some (2, 0)\<rparr>)
   \<and> generate_configurations (knowledge no_configuration) = []
   \<and> GC_analyze_knowledge no_configuration
     = Inr (no_configuration\<lparr>safes := [(2, 0)], knowledge := [\<lparr>cells = [], count = 2\<rparr>]\<rparr>)
   \<and> GC_analyze_knowledge no_cell = Inl ValueError"
  using GC_example_mine GC_example_mine_marked GC_example_mine_choose
    GC_example_no_configuration GC_example_no_cell
  by (simp add: after_two_reveals_def guessed_mine_def Solver_init_def)

text \<open>
  C3 (amended).  Let \<open>cfgs\<close> be the configurations that \<open>analyze_knowledge\<close> of the
  \<open>GenerateConfigurationSolver\<close> enumerates for a non-empty knowledge list, and \<open>K\<close> the cells
  that the sentences mention.  The histogram is computed without a KeyError and holds, for
  each cell of \<open>K\<close>, the number of configurations with the cell.  Marking adds to \<open>safes\<close>
  exactly the cells of \<open>K\<close> in no configuration, and to \<open>mines\<close> exactly the cells of \<open>K\<close> in
  every configuration when there is at least one configuration; \<open>next_uncertain_move\<close> is
  not touched by the marking.  If some cell was marked safe the call ends there.  If none
  was, and \<open>K\<close> is not empty, the call is \<open>choose_uncertain_move\<close> on a cell of \<open>K\<close> with the
  least number of appearances, with that number divided by the number of configurations
  as its risk, whether or not a mine was marked.  (With \<open>K\<close> empty, \<open>min\<close> raises ValueError.)
\<close>

theorem GC_analyze_knowledge_marks:
  fixes s :: Solver
  defines "cfgs \<equiv> generate_configurations (knowledge s)"
    and "K \<equiv> sentence_cells (knowledge s)"
  assumes nonempty: "knowledge s \<noteq> []"
  shows "\<exists>hist marked.
      histogram_count cfgs (histogram_init (knowledge s)) = Inr hist
    \<and> set hist = (\<lambda>c. (c, int (appearances cfgs c))) ` K
    \<and> set (safes marked) = set (safes s) \<union> {c \<in> K. appearances cfgs c = 0}
    \<and> set (mines marked) =
          set (mines s) \<union> {c \<in> K. appearances cfgs c = length cfgs \<and> length cfgs \<noteq> 0}
    \<and> next_uncertain_move marked = next_uncertain_move s
    \<and> ({c \<in> K. appearances cfgs c = 0} \<noteq> {} \<longrightarrow> GC_analyze_knowledge s = Inr marked)
    \<and> ({c \<in> K. appearances cfgs c = 0} = {} \<and> K = {} \<longrightarrow> GC_analyze_knowledge s = Inl ValueError)
    \<and> ({c \<in> K. appearances cfgs c = 0} = {} \<and> K \<noteq> {} \<longrightarrow>
          (\<exists>best\<in>K. (\<forall>c\<in>K. appearances cfgs best \<le> appearances cfgs c)
             \<and> GC_analyze_knowledge s =
                 choose_uncertain_move best
                   (rat_of_int (int (appearances cfgs best)) / rat_of_int (int (length cfgs)))
                   hist marked))"
proof -
  obtain hist where
    hc: "histogram_count cfgs (histogram_init (knowledge s)) = Inr hist"
    and hd: "distinct (map fst hist)"
    and hm: "\<And>k. map_of hist k = (if k \<in> K then Some (int (appearances cfgs k)) else None)"
    unfolding cfgs_def K_def using GC_histogram [of "knowledge s"] by blast
  have entries: "((c, v) \<in> set hist) = (c \<in> K \<and> v = int (appearances cfgs c))" for c v
    using hd hm by (rule GC_histogram_entries)
  obtain marked found where m: "GC_mark (length cfgs) hist s = (marked, found)"
    by (cases "GC_mark (length cfgs) hist s")
  from GC_mark_fold [OF m [unfolded GC_mark_def]]
  have safes_m: "set (safes marked) = set (safes s) \<union> {c. (c, 0) \<in> set hist}"
    and mines_m: "set (mines marked) = set (mines s) \<union> {c. (c, int (length cfgs)) \<in> set hist \<and> length cfgs \<noteq> 0}"
    and found: "found = ({c. (c, 0) \<in> set hist} \<noteq> {})"
    and frame: "marks_only s marked"
    by simp_all
  have Z: "{c. (c, 0) \<in> set hist} = {c \<in> K. appearances cfgs c = 0}"
    by (simp add: entries)
  have M: "{c. (c, int (length cfgs)) \<in> set hist \<and> length cfgs \<noteq> 0}
            = {c \<in> K. appearances cfgs c = length cfgs \<and> length cfgs \<noteq> 0}"
    by (auto simp: entries)
  have sh: "set hist = (\<lambda>c. (c, int (appearances cfgs c))) ` K"
    using entries by (auto simp: image_iff)
  have unfold: "GC_analyze_knowledge s =
      (if found then Inr marked
       else case py_min snd hist of
              Inl e \<Rightarrow> Inl e
            | Inr best \<Rightarrow>
                if length cfgs = 0 then Inl ZeroDivisionError
                else choose_uncertain_move (fst best)
                       (rat_of_int (snd best) / rat_of_int (int (length cfgs))) hist marked)"
    using nonempty hc m unfolding cfgs_def
    by (simp add: GC_analyze_knowledge_def Let_def split: sum.splits)
  have c1: "GC_analyze_knowledge s = Inr marked" if "{c \<in> K. appearances cfgs c = 0} \<noteq> {}"
    using that found Z unfold by simp
  have c2: "GC_analyze_knowledge s = Inl ValueError"
    if "{c \<in> K. appearances cfgs c = 0} = {} \<and> K = {}"
  proof -
    from that sh have "hist = []" by simp
    with that found Z unfold show ?thesis by (simp add: py_min_def)
  qed
  have c3: "\<exists>best\<in>K. (\<forall>c\<in>K. appearances cfgs best \<le> appearances cfgs c)
             \<and> GC_analyze_knowledge s =
                 choose_uncertain_move best
                   (rat_of_int (int (appearances cfgs best)) / rat_of_int (int (length cfgs)))
                   hist marked"
    if h: "{c \<in> K. appearances cfgs c = 0} = {} \<and> K \<noteq> {}"
  proof -
    from h sh have "hist \<noteq> []" by auto
    from py_min_least [OF this, of snd] obtain b where
      b: "py_min snd hist = Inr b" "b \<in> set hist" "\<forall>y\<in>set hist. snd b \<le> snd y"
      by blast
    obtain c v where bc: "b = (c, v)" by (cases b)
    with b(2) entries have cK: "c \<in> K" and v: "v = int (appearances cfgs c)" by simp_all
    have least: "\<forall>c'\<in>K. appearances cfgs c \<le> appearances cfgs c'"
    proof
      fix c' assume "c' \<in> K"
      then have "(c', int (appearances cfgs c')) \<in> set hist" by (simp add: entries)
      with b(3) bc v show "appearances cfgs c \<le> appearances cfgs c'" by fastforce
    qed
    have "appearances cfgs c \<noteq> 0"
    proof
      assume "appearances cfgs c = 0"
      with cK have "c \<in> {c \<in> K. appearances cfgs c = 0}" by simp
      also from h have "{c \<in> K. appearances cfgs c = 0} = {}" by (rule conjunct1)
      finally show False by (simp only: empty_iff)
    qed
    moreover have "appearances cfgs c \<le> length cfgs" by (simp add: appearances_def)
    ultimately have len: "length cfgs \<noteq> 0" by linarith
    have nf: "\<not> found" using found Z h by simp
    have "GC_analyze_knowledge s =
            choose_uncertain_move c
              (rat_of_int (int (appearances cfgs c)) / rat_of_int (int (length cfgs))) hist marked"
      using unfold nf len b(1) bc v by simp
    with cK least show ?thesis by blast
  qed
  have nm: "next_uncertain_move marked = next_uncertain_move s"
    using frame by (simp add: marks_only_def)
  have s': "set (safes marked) = set (safes s) \<union> {c \<in> K. appearances cfgs c = 0}"
    using safes_m unfolding Z .
  have m': "set (mines marked) =
          set (mines s) \<union> {c \<in> K. appearances cfgs c = length cfgs \<and> length cfgs \<noteq> 0}"
    using mines_m unfolding M .
  show ?thesis
    apply (rule exI [of _ hist])
    apply (rule exI [of _ marked])
    apply (intro conjI impI)
    using hc sh s' m' nm c1 c2 c3 by blast+
qed

theorem GC_analyze_knowledge_marks_witness:
  "\<exists>hist (marked::Solver).
      histogram_count (generate_configurations (knowledge (after_two_reveals GenerateConfigurationSolver 0)))
        (histogram_init (knowledge (after_two_reveals GenerateConfigurationSolver 0))) = Inr hist
    \<and> set (mines marked) =
          set (mines (after_two_reveals GenerateConfigurationSolver 0)) \<union>
          {c \<in> sentence_cells (knowledge (after_two_reveals GenerateConfigurationSolver 0)).
             appearances (generate_configurations (knowledge (after_two_reveals GenerateConfigurationSolver 0))) c
               = length (generate_configurations (knowledge (after_two_reveals GenerateConfigurationSolver 0)))
             \<and> length (generate_configurations (knowledge (after_two_reveals GenerateConfigurationSolver 0))) \<noteq> 0}"
proof -
  have "knowledge (after_two_reveals GenerateConfigurationSolver 0) \<noteq> []"
    by (simp add: after_two_reveals_def)
  from GC_analyze_knowledge_marks [OF this] show ?thesis
    apply -
    apply (elim exE conjE)
    apply (intro exI conjI)
     apply assumption+
    done
qed

subsection \<open>Moves\<close>

text \<open>
  Calls that no game makes.  On the board of three cells, after the two calls of
  \<open>add_knowledge\<close> in this order (the game loop digs \<open>(0,0)\<close> first and would have ended the
  game as won), \<open>make_move\<close> of the \<open>GenerateConfigurationSolver\<close> marks \<open>(2,0)\<close> as a mine
  and returns it as the cell to reveal: every tile not acted on is in the histogram, so
  \<open>choose_uncertain_move\<close> takes the best informed tile whatever its risk.  The
  \<open>SetBasedSolver\<close> with guess method 1 does the same; its next call flags \<open>(2,0)\<close>, and the
  call after that returns \<open>(2,0)\<close> as a reveal again, read from the stale
  \<open>next_uncertain_move\<close>, although the cell was in \<open>mines\<close> before that call.
\<close>

lemma make_move_known_mine_outside_game:
  "make_move (add_knowledge (0, 0) 0
                (add_knowledge (1, 0) 1 (Solver_init GenerateConfigurationSolver 3 1 1 0)))
     = Inr ((Some (2, 0), 1), guessed_mine GenerateConfigurationSolver 0)
   \<and> (2, 0) \<in> set (mines (guessed_mine GenerateConfigurationSolver 0))
   \<and> make_move (add_knowledge (0, 0) 0
                (add_knowledge (1, 0) 1 (Solver_init SetBasedSolver 3 1 1 1)))
     = Inr ((Some (2, 0), 1), guessed_mine SetBasedSolver 1)
   \<and> make_move (guessed_mine SetBasedSolver 1)
     = Inr ((Some (2, 0), 3),
            (guessed_mine SetBasedSolver 1)\<lparr>moves_made := [(1, 0), (0, 0), (2, 0)]\<rparr>)
   \<and> (2, 0) \<in> set (mines ((guessed_mine SetBasedSolver 1)\<lparr>moves_made := [(1, 0), (0, 0), (2, 0)]\<rparr>))
   \<and> make_move ((guessed_mine SetBasedSolver 1)\<lparr>moves_made := [(1, 0), (0, 0), (2, 0)]\<rparr>)
     = Inr ((Some (2, 0), 1),
            (guessed_mine SetBasedSolver 1)
               \<lparr>moves_made := [(1, 0), (0, 0), (2, 0)], knowledge := [], guess := 1\<rparr>)"
  using two_reveals_GC two_reveals_SB make_move_GC_1 make_move_SB_1 make_move_SB_2 make_move_SB_3
  by (simp add: two_reveals_def guessed_mine_def)

text \<open>
  For every solver state: when \<open>make_move\<close> returns a reveal of a cell that is in the
  solver's \<open>mines\<close> on return, the move was not a safe move, and the cell was read from
  \<open>next_uncertain_move\<close>: either the knowledge list is not empty, or it is empty and the scan
  of the board found no cell that is neither acted on nor a known mine.  So a safe move and
  a cell found by that scan are never known mines.
\<close>

lemma make_move_reveals_mine_only_as_guess:
  assumes mm: "make_move s = Inr ((Some c, 1), s')" and mine: "c \<in> set (mines s')"
  shows "make_safe_move s' = None \<and> next_uncertain_move s' = Some c
       \<and> (knowledge s' = []
            \<longrightarrow> find (\<lambda>p. p \<notin> set (moves_made s') \<and> p \<notin> set (mines s')) (board_scan s') = None)"
proof -
  from mm have flagged: "find (\<lambda>m. m \<notin> set (moves_made s)) (mines s) = None"
    by (auto simp: make_move_def split: option.splits)
  then have sub: "set (mines s) \<subseteq> set (moves_made s)"
    by (auto simp: find_None_iff)
  obtain s1 where an: "(if make_safe_move s = None then analyze_knowledge s else Inr s) = Inr s1"
    using mm flagged by (auto simp: make_move_def split: sum.splits)
  have frame: "moves_made s1 = moves_made s
       \<and> set (mines s) \<subseteq> set (mines s1)
       \<and> (set (safes s1) - set (safes s)) \<inter> (set (mines s1) - set (mines s)) = {}"
    using an analyze_knowledge_frame [of s s1] by (auto split: if_splits)
  have old: "set (safes s1) = set (safes s)" if "make_safe_move s \<noteq> None"
    using an that by (auto split: if_splits)
  show ?thesis
  proof (cases "make_safe_move s1")
    case (Some c1)
    with mm flagged an have eq: "c1 = c" "s' = s1"
      by (auto simp: make_move_def split: sum.splits)
    from make_safe_move_Some [OF Some] eq have c: "c \<in> set (safes s1)" "c \<notin> set (moves_made s1)"
      by simp_all
    with frame sub have nm: "c \<notin> set (mines s)" by auto
    have "c \<notin> set (mines s1)"
    proof (cases "make_safe_move s = None")
      case True
      from make_safe_move_None [OF True] c frame have "c \<notin> set (safes s)" by auto
      with c frame nm show ?thesis by blast
    next
      case False
      with an have "s1 = s" by simp
      with nm show ?thesis by simp
    qed
    with mine eq show ?thesis by simp
  next
    case None
    with mm flagged an have eq: "make_uncertain_move s1 = Some c" "s' = s1\<lparr>guess := guess s1 + 1\<rparr>"
      by (auto simp: make_move_def split: sum.splits)
    from mine eq have m1: "c \<in> set (mines s1)" by simp
    have "next_uncertain_move s1 = Some c
        \<and> (knowledge s1 = [] \<longrightarrow>
              find (\<lambda>p. p \<notin> set (moves_made s1) \<and> p \<notin> set (mines s1)) (board_scan s1) = None)"
      using eq(1) m1
      by (auto simp: make_uncertain_move_def split: if_splits option.splits dest: find_Some_iff [THEN iffD1])
    with None eq show ?thesis by (simp add: make_safe_move_def board_scan_def)
  qed
qed

lemma make_move_reveals_mine_only_as_guess_example:
  "make_safe_move (guessed_mine GenerateConfigurationSolver 0) = None
   \<and> next_uncertain_move (guessed_mine GenerateConfigurationSolver 0) = Some (2, 0)"
proof -
  have "(2, 0) \<in> set (mines (guessed_mine GenerateConfigurationSolver 0))"
    by (simp add: guessed_mine_def)
  from make_move_reveals_mine_only_as_guess [OF make_move_GC_1 this]
  show ?thesis by simp
qed

subsection \<open>The probability-theory strategy\<close>

lemma repeatE_fixed: "f st = Inr st \<Longrightarrow> repeatE n f st = Inr st"
  by (induction n) simp_all

lemma PT_example_estimate:
  "PT_estimate (knowledge (after_two_reveals ProbabilityTheorySolver 0)) = Inr [((2, 0), \<lparr>prob = 1\<rparr>)]"
  by code_simp

lemma PT_example_round:
  "PT_normalise_round (knowledge (after_two_reveals ProbabilityTheorySolver 0))
     (map cells (knowledge (after_two_reveals ProbabilityTheorySolver 0)))
     [((2, 0), \<lparr>prob = 1\<rparr>)] = Inr [((2, 0), \<lparr>prob = 1\<rparr>)]"
  by code_simp

lemma PT_example_choose:
  "choose_uncertain_move (2, 0) 1 [((2, 0), \<lparr>prob = 1\<rparr>)] (after_two_reveals ProbabilityTheorySolver 0)
     = Inr ((after_two_reveals ProbabilityTheorySolver 0)\<lparr>next_uncertain_move := Some (2, 0)\<rparr>)"
  by code_simp

text \<open>
  C1 (the code at a failing input).  On the board of three cells the mine probability
  computed for \<open>(2,0)\<close> is exactly 1, and \<open>analyze_knowledge\<close> of the
  \<open>ProbabilityTheorySolver\<close> returns with \<open>mines\<close> still empty: the test compares the
  \<open>Probability\<close> object, not its \<open>prob\<close>, with 1.  The cell is committed as the next uncertain
  move instead.
\<close>

theorem PT_analyze_knowledge_marks_nothing:
  "PT_estimate (knowledge (add_knowledge (0, 0) 0
        (add_knowledge (1, 0) 1 (Solver_init ProbabilityTheorySolver 3 1 1 0))))
     = Inr [((2, 0), \<lparr>prob = 1\<rparr>)]
   \<and> PT_analyze_knowledge (add_knowledge (0, 0) 0
        (add_knowledge (1, 0) 1 (Solver_init ProbabilityTheorySolver 3 1 1 0)))
     = Inr ((Solver_init ProbabilityTheorySolver 3 1 1 0)
              \<lparr>moves_made := [(1, 0), (0, 0)], mines := [], safes := [(1, 0), (0, 0)],
               knowledge := [\<lparr>cells = [(2, 0)], count = 1\<rparr>],
               next_uncertain_move := Some (2, 0)\<rparr>)"
proof -
  let ?s = "after_two_reveals ProbabilityTheorySolver 0"
  have k: "knowledge ?s \<noteq> []" by (simp add: after_two_reveals_def)
  have rounds: "repeatE 30 (PT_normalise_round (knowledge ?s) (map cells (knowledge ?s)))
                  [((2, 0), \<lparr>prob = 1\<rparr>)] = Inr [((2, 0), \<lparr>prob = 1\<rparr>)]"
    using PT_example_round by (rule repeatE_fixed)
  have "PT_analyze_knowledge ?s = Inr (?s\<lparr>next_uncertain_move := Some (2, 0)\<rparr>)"
    using k rounds PT_example_choose
    by (simp add: PT_analyze_knowledge_def PT_example_estimate PT_mark_nothing py_min_def)
  then show ?thesis
    using two_reveals_PT PT_example_estimate
    by (simp add: two_reveals_def after_two_reveals_def Solver_init_def)
qed

subsection \<open>Placing mines and clues\<close>

text \<open>
  C7.  Take a freshly constructed board, any first-click coordinate, and any run of
  \<open>place_mines\<close> that returns, on draws that lie on the board as those of
  \<open>random.randint\<close> do.  Then \<open>place_mines\<close> and \<open>place_clues\<close> raise nothing, and on the
  board they leave exactly \<open>AMOUNT_MINES\<close> tiles are mines, the tile at the first-click
  coordinate is not one of them, and the \<open>nearby_mine\<close> of every tile that is not a mine is
  the number of mines among its neighbours on the board.  (The bound on the mine count that
  the claim assumes is not needed once the run is known to return.)
\<close>

theorem place_mines_place_clues:
  assumes draws: "set draws \<subseteq> inside st"
    and ret: "place_mines st fcx fcy draws (Board_init st) = Some r"
  shows "\<exists>b1 draws' b2. r = Inr (b1, draws') \<and> place_clues st b1 = Inr b2
      \<and> card (mine_cells st (board_list b2)) = AMOUNT_MINES st
      \<and> (fcx, fcy) \<notin> mine_cells st (board_list b2)
      \<and> (\<forall>q\<in>inside st. q \<notin> mine_cells st (board_list b2) \<longrightarrow>
            nearby_mine (tile_of (board_list b2) q)
              = int (card (mine_cells st (board_list b2) \<inter> neighbours_of q)))"
proof -
  let ?bl0 = "board_list (Board_init st)"
  have wf0: "wf_grid st ?bl0" by (rule Board_init_grid)
  from ret obtain rn where rn: "place_n_mines (AMOUNT_MINES st) (fcx, fcy) draws ?bl0 = Some rn"
    by (auto simp: place_mines_def split: option.splits)
  from place_n_mines_result [OF wf0 draws rn] obtain bl1 draws' S where
    pm: "rn = Inr (bl1, draws')" "wf_grid st bl1" "S \<subseteq> inside st" "card S = AMOUNT_MINES st"
      "(fcx, fcy) \<notin> S"
      "\<forall>q\<in>inside st. tile_of bl1 q = (if q \<in> S then mine_tile (tile_of ?bl0 q) else tile_of ?bl0 q)"
    by blast
  have r: "r = Inr (Board_init st\<lparr>board_list := bl1\<rparr>, draws')"
    using ret rn pm(1) by (simp add: place_mines_def)
  have mc1: "mine_cells st bl1 = S"
  proof -
    have "tile_type (tile_of bl1 q) = ''X'' \<longleftrightarrow> q \<in> S" if "q \<in> inside st" for q
      using pm(6) [rule_format, OF that] Board_init_grid(2) [OF that]
      by (simp add: mine_tile_def Tile_init_def)
    with pm(3) show ?thesis by (auto simp: mine_cells_def)
  qed
  have nm1: "nearby_mine (tile_of bl1 q) = 0" if "q \<in> inside st" for q
    using pm(6) [rule_format, OF that] Board_init_grid(2) [OF that]
    by (simp add: mine_tile_def Tile_init_def)
  from place_clues_fold [OF pm(2), of "all_cells st"] obtain bl2 where
    pc: "foldE (place_clue st) (all_cells st) bl1 = Inr bl2" "wf_grid st bl2"
      "mine_cells st bl2 = mine_cells st bl1"
      "\<forall>q\<in>inside st. tile_of bl2 q =
                 (if q \<in> set (all_cells st) \<and> q \<notin> mine_cells st bl1 \<and> mines_around st bl1 q > 0
                  then clue_tile (mines_around st bl1 q) (tile_of bl1 q) else tile_of bl1 q)"
    by (auto simp: set_all_cells)
  let ?b1 = "Board_init st\<lparr>board_list := bl1\<rparr>"
  let ?b2 = "?b1\<lparr>board_list := bl2\<rparr>"
  have clues: "place_clues st ?b1 = Inr ?b2"
    using pc(1) by (simp add: place_clues_def)
  have ma: "mines_around st bl2 q = mines_around st bl1 q" for q
    using pc(3) by (simp add: mines_around_def)
  have counts: "nearby_mine (tile_of bl2 q) = int (card (mine_cells st bl2 \<inter> neighbours_of q))"
    if q: "q \<in> inside st" and nm: "q \<notin> mine_cells st bl2" for q
  proof -
    from nm pc(3) have nm1': "q \<notin> mine_cells st bl1" by simp
    have "nearby_mine (tile_of bl2 q) = mines_around st bl1 q"
    proof (cases "mines_around st bl1 q > 0")
      case True
      with pc(4) [rule_format, OF q] nm1' q show ?thesis
        by (simp add: set_all_cells clue_tile_def)
    next
      case False
      moreover have "0 \<le> mines_around st bl1 q" by (simp add: mines_around_def)
      ultimately have z: "mines_around st bl1 q = 0" by simp
      with pc(4) [rule_format, OF q] nm1 [OF q] show ?thesis by simp
    qed
    also have "\<dots> = mines_around st bl2 q" by (simp add: ma)
    also have "\<dots> = int (card (mine_cells st bl2 \<inter> neighbours_of q))"
      using nm by (rule mines_around_neighbours)
    finally show ?thesis .
  qed
  have "card (mine_cells st bl2) = AMOUNT_MINES st" using pc(3) mc1 pm(4) by simp
  moreover have "(fcx, fcy) \<notin> mine_cells st bl2" using pc(3) mc1 pm(5) by simp
  ultimately show ?thesis
    using r clues counts
    by (intro exI [of _ ?b1] exI [of _ draws'] exI [of _ ?b2]) simp
qed

definition small_settings :: settings where
  "small_settings = \<lparr>TILESIZE = 30, ROWS = 2, COLS = 2, AMOUNT_MINES = 1\<rparr>"

definition small_mined :: Board where
  "small_mined =
     (Board_init small_settings)
       \<lparr>board_list :=
          [[Tile_init small_settings 0 0 tile_empty ''.'', Tile_init small_settings 0 1 tile_empty ''.''],
           [Tile_init small_settings 1 0 tile_empty ''.'',
            (Tile_init small_settings 1 1 tile_empty ''.'')\<lparr>tile_image := tile_mine, tile_type := ''X''\<rparr>]]\<rparr>"

lemma small_place_mines:
  "place_mines small_settings 0 0 [(0, 0), (1, 1)] (Board_init small_settings)
     = Some (Inr (small_mined, []))"
  by code_simp

theorem place_mines_place_clues_witness:
  "\<exists>b2. place_clues small_settings small_mined = Inr b2
      \<and> card (mine_cells small_settings (board_list b2)) = 1
      \<and> (0, 0) \<notin> mine_cells small_settings (board_list b2)"
proof -
  have "set [(0, 0), (1, 1)] \<subseteq> inside small_settings"
    by (simp add: inside_def is_inside_def small_settings_def)
  from place_mines_place_clues [OF this small_place_mines]
  show ?thesis by (auto simp: small_settings_def)
qed

subsection \<open>The flood fill\<close>

text \<open>
  C6 (amended).  Take a board with its grid well formed, on which the clues are placed, and
  whose \<open>dug\<close> list is as earlier calls of \<open>dig\<close> leave it.  Then \<open>dig\<close> on a cell of the
  board whose tile is neither a mine nor a clue returns \<open>True\<close> and raises nothing (it
  terminates on every input: \<open>dig\<close> is a total function).  On return the \<open>dug\<close> list holds
  the cells it held before, the connected zero-count region of the cell and the ring of
  clue tiles bordering the region; every tile of the region and of the ring is marked
  revealed, and every other tile of the board is as it was.  The tiles newly marked are
  therefore those of the region and the ring that were not revealed before.
\<close>

theorem dig_flood_fill:
  assumes wf: "wf_grid st (board_list b)" and clues: "clues_placed st (board_list b)"
    and dc: "dug_closed st b"
    and p: "(x, y) \<in> inside st" and z: "zero_tile (board_list b) (x, y)"
  shows "\<exists>b' ai'. dig st x y ai b = Inr (True, b', ai')
      \<and> set (dug b') = set (dug b) \<union> zero_region st (board_list b) (x, y)
                           \<union> clue_ring st (board_list b) (x, y)
      \<and> (\<forall>q\<in>inside st. tile_of (board_list b') q =
            (if q \<in> zero_region st (board_list b) (x, y) \<union> clue_ring st (board_list b) (x, y)
             then (tile_of (board_list b) q)\<lparr>revealed := True\<rparr> else tile_of (board_list b) q))"
proof -
  let ?bl = "board_list b"
  let ?F = "fill st ?bl (x, y)"
  from dig_invariant(1) [of st b x y ai] wf p obtain b' ai' D where
    eq: "dig st x y ai b = Inr (tile_type (tile_of ?bl (x, y)) \<noteq> ''X'', b', ai')"
    and ds: "dig_step st b b' D" and pD: "(x, y) \<in> D" and sub: "D \<subseteq> ?F"
    and cl: "closed_under st ?bl D b'"
    by blast
  have d: "set (dug b') = set (dug b) \<union> D"
    and tiles: "\<forall>q\<in>inside st. tile_of (board_list b') q =
             (if q \<in> D then dug_tile (tile_of ?bl q) else tile_of ?bl q)"
    using ds by (simp_all add: dig_step_def)
  have all: "r \<in> set (dug b')" if "r \<in> ?F" for r
    using that
  proof (induction rule: fill.induct)
    case fill_start
    with pD d show ?case by simp
  next
    case (fill_step q r)
    show ?case
    proof (cases "q \<in> D")
      case True
      with cl fill_step.hyps(3,4,5) show ?thesis unfolding closed_under_def by blast
    next
      case False
      with fill_step.IH d have "q \<in> set (dug b)" by simp
      with dc fill_step.hyps(3,4,5) have "r \<in> set (dug b)" unfolding dug_closed_def by blast
      with d show ?thesis by simp
    qed
  qed
  have F: "?F = zero_region st ?bl (x, y) \<union> clue_ring st ?bl (x, y)"
    by (rule fill_region_ring [OF p z clues])
  have dug': "set (dug b') = set (dug b) \<union> ?F"
    using d sub all by blast
  have t: "tile_of (board_list b') q = (if q \<in> ?F then (tile_of ?bl q)\<lparr>revealed := True\<rparr> else tile_of ?bl q)"
    if q: "q \<in> inside st" for q
  proof (cases "q \<in> D")
    case True
    with sub have qF: "q \<in> ?F" by blast
    from fill_no_mine [OF p z clues qF] have "dug_tile (tile_of ?bl q) = (tile_of ?bl q)\<lparr>revealed := True\<rparr>"
      by (simp add: dug_tile_def)
    with tiles q True qF show ?thesis by simp
  next
    case False
    show ?thesis
    proof (cases "q \<in> ?F")
      case True
      with all d False have "q \<in> set (dug b)" by blast
      with dc have "revealed (tile_of ?bl q)" by (simp add: dug_closed_def)
      then have "(tile_of ?bl q)\<lparr>revealed := True\<rparr> = tile_of ?bl q" by (rule revealed_update)
      with tiles q False True show ?thesis by simp
    next
      case nF: False
      with tiles q False show ?thesis by simp
    qed
  qed
  from z have "tile_type (tile_of ?bl (x, y)) \<noteq> ''X''" by (simp add: zero_tile_def)
  with eq have eq': "dig st x y ai b = Inr (True, b', ai')" by simp
  have dug'': "set (dug b') = set (dug b) \<union> zero_region st ?bl (x, y) \<union> clue_ring st ?bl (x, y)"
    using dug' unfolding F by (simp only: Un_assoc)
  have t': "\<forall>q\<in>inside st. tile_of (board_list b') q =
            (if q \<in> zero_region st ?bl (x, y) \<union> clue_ring st ?bl (x, y)
             then (tile_of ?bl q)\<lparr>revealed := True\<rparr> else tile_of ?bl q)"
    using t unfolding F by blast
  from eq' dug'' t' show ?thesis by blast
qed

text \<open>
  The board of three columns and one row: \<open>strip_tiles r0 r1\<close> is its grid after
  \<open>place_clues\<close>, with the \<open>revealed\<close> flags of \<open>(0,0)\<close> and \<open>(1,0)\<close> as given.
\<close>

definition strip_settings :: settings where
  "strip_settings = \<lparr>TILESIZE = 30, ROWS = 1, COLS = 3, AMOUNT_MINES = 1\<rparr>"

definition strip_tiles :: "bool \<Rightarrow> bool \<Rightarrow> Tile list list" where
  "strip_tiles r0 r1 =
     [[\<lparr>tile_x = 0, tile_y = 0, tile_image = tile_empty, tile_type = ''.'', nearby_mine = 0,
        revealed = r0, flagged = False\<rparr>],
      [\<lparr>tile_x = 30, tile_y = 0, tile_image = tile_numbers 0, tile_type = ''C'', nearby_mine = 1,
        revealed = r1, flagged = False\<rparr>],
      [\<lparr>tile_x = 60, tile_y = 0, tile_image = tile_mine, tile_type = ''X'', nearby_mine = 0,
        revealed = False, flagged = False\<rparr>]]"

definition strip_placed :: Board where
  "strip_placed = \<lparr>board_list = strip_tiles False False, first_click = False, dug = []\<rparr>"

definition strip_clue_dug :: Board where
  "strip_clue_dug = \<lparr>board_list = strip_tiles False True, first_click = False, dug = [(1, 0)]\<rparr>"

lemma strip_place_mines:
  "place_mines strip_settings 1 0 [(2, 0)] (Board_init strip_settings)
     = Some (Inr (strip_placed\<lparr>board_list :=
                     [[Tile_init strip_settings 0 0 tile_empty ''.''],
                      [Tile_init strip_settings 1 0 tile_empty ''.''],
                      [(Tile_init strip_settings 2 0 tile_empty ''.'')\<lparr>tile_image := tile_mine, tile_type := ''X''\<rparr>]]\<rparr>, []))"
  by code_simp

lemma strip_place_clues:
  "place_clues strip_settings (strip_placed\<lparr>board_list :=
                     [[Tile_init strip_settings 0 0 tile_empty ''.''],
                      [Tile_init strip_settings 1 0 tile_empty ''.''],
                      [(Tile_init strip_settings 2 0 tile_empty ''.'')\<lparr>tile_image := tile_mine, tile_type := ''X''\<rparr>]]\<rparr>)
     = Inr strip_placed"
  by code_simp

lemma strip_dig_clue: "dig strip_settings 1 0 None strip_placed = Inr (True, strip_clue_dug, None)"
  by code_simp

lemma strip_dig_fresh:
  "dig strip_settings 0 0 None strip_placed
     = Inr (True, \<lparr>board_list = strip_tiles True True, first_click = False, dug = [(0, 0), (1, 0)]\<rparr>, None)"
  by code_simp

lemma strip_dig_after:
  "dig strip_settings 0 0 None strip_clue_dug
     = Inr (True, \<lparr>board_list = strip_tiles True True, first_click = False, dug = [(1, 0), (0, 0)]\<rparr>, None)"
  by code_simp

lemma strip_ring: "(1, 0) \<in> clue_ring strip_settings (strip_tiles r0 r1) (0, 0)"
proof -
  have "(0, 0) \<in> zero_region strip_settings (strip_tiles r0 r1) (0, 0)"
    by (rule zero_region.region_start)
  moreover have "(1, 0) \<in> neighbours_of (0, 0)"
    by (simp add: neighbours_of_def block3x3_def)
  moreover have "(1, 0) \<in> inside strip_settings"
    by (simp add: inside_def is_inside_def strip_settings_def)
  moreover have "tile_type (tile_of (strip_tiles r0 r1) (1, 0)) = ''C''"
    by (simp add: tile_of_def strip_tiles_def)
  ultimately show ?thesis unfolding clue_ring_def by blast
qed

text \<open>
  C6 (as stated, refuted).  A board of three columns and one row with its mine at \<open>(2,0)\<close>,
  as \<open>place_mines\<close> and \<open>place_clues\<close> leave it after a first click on \<open>(1,0)\<close> with the
  draw \<open>(2,0)\<close>.  The first click digs the clue tile \<open>(1,0)\<close>.  A later \<open>dig\<close> of the empty
  tile \<open>(0,0)\<close> finds its only neighbour \<open>(1,0)\<close> in \<open>dug\<close> and marks \<open>(0,0)\<close> alone: the
  clue tile \<open>(1,0)\<close> is in the ring of the region of \<open>(0,0)\<close>, and it is not among the tiles
  newly marked revealed.
\<close>

theorem dig_ring_already_revealed_counterexample:
  "dig strip_settings 1 0 None strip_placed = Inr (True, strip_clue_dug, None)
   \<and> dig strip_settings 0 0 None strip_clue_dug
       = Inr (True, \<lparr>board_list = strip_tiles True True, first_click = False,
                     dug = [(1, 0), (0, 0)]\<rparr>, None)
   \<and> (1, 0) \<in> clue_ring strip_settings (board_list strip_clue_dug) (0, 0)
   \<and> filter (\<lambda>q. \<not> revealed (tile_of (board_list strip_clue_dug) q)
                  \<and> revealed (tile_of (strip_tiles True True) q)) (all_cells strip_settings)
       = [(0, 0)]"
proof -
  have "filter (\<lambda>q. \<not> revealed (tile_of (board_list strip_clue_dug) q)
                  \<and> revealed (tile_of (strip_tiles True True) q)) (all_cells strip_settings)
       = [(0, 0)]"
    by code_simp
  moreover have "(1, 0) \<in> clue_ring strip_settings (board_list strip_clue_dug) (0, 0)"
    by (simp add: strip_clue_dug_def strip_ring)
  ultimately show ?thesis using strip_dig_clue strip_dig_after by simp
qed

text \<open>
  On the same board with no tile dug yet, \<open>dig\<close> of \<open>(0,0)\<close> marks both \<open>(0,0)\<close> and
  \<open>(1,0)\<close> (\<open>strip_dig_fresh\<close>); the hypotheses of the theorem hold there.
\<close>

theorem dig_flood_fill_witness:
  "\<exists>b' ai'. dig strip_settings 0 0 None strip_placed = Inr (True, b', ai')
      \<and> set (dug b') = set (dug strip_placed)
                           \<union> zero_region strip_settings (board_list strip_placed) (0, 0)
                           \<union> clue_ring strip_settings (board_list strip_placed) (0, 0)
      \<and> (\<forall>q\<in>inside strip_settings. tile_of (board_list b') q =
            (if q \<in> zero_region strip_settings (board_list strip_placed) (0, 0)
                     \<union> clue_ring strip_settings (board_list strip_placed) (0, 0)
             then (tile_of (board_list strip_placed) q)\<lparr>revealed := True\<rparr>
             else tile_of (board_list strip_placed) q))"
proof -
  have draws: "set [(2, 0)] \<subseteq> inside strip_settings"
    by (simp add: inside_def is_inside_def strip_settings_def)
  from placed_board [OF draws strip_place_mines strip_place_clues]
  have wf: "wf_grid strip_settings (board_list strip_placed)"
    and clues: "clues_placed strip_settings (board_list strip_placed)"
    and dc: "dug_closed strip_settings strip_placed"
    by simp_all
  have p: "(0, 0) \<in> inside strip_settings"
    by (simp add: inside_def is_inside_def strip_settings_def)
  have z: "zero_tile (board_list strip_placed) (0, 0)"
    by (simp add: zero_tile_def tile_of_def strip_placed_def strip_tiles_def)
  show ?thesis by (rule dig_flood_fill [OF wf clues dc p z])
qed

end
